theory Spec2Isabelle
  imports Main "HOL-Library.Code_Target_Nat"
begin

section \<open>HTTP responses and the generic internal API helpers\<close>

text \<open>
  \<^verbatim>\<open>util.JSONResponse\<close> carries a status code and a JSON payload (the headers are
  never set in this code). The payload type is a parameter: the internal API helpers
  serialise requests and responses of any type, the federation endpoint serialises
  Matrix errors and PDU result maps.
\<close>

record 'j JSONResponse =
  Code :: int
  JSON :: 'j

definition StatusOK :: int where "StatusOK = 200"
definition StatusAccepted :: int where "StatusAccepted = 202"
definition StatusBadRequest :: int where "StatusBadRequest = 400"
definition StatusRequestTimeout :: int where "StatusRequestTimeout = 408"

lemmas status_defs = StatusOK_def StatusAccepted_def StatusBadRequest_def StatusRequestTimeout_def

text \<open>
  Contexts. \<^verbatim>\<open>context.Background()\<close> is never done; the context of HTTP request
  \<open>r\<close> is done once the client has gone away; \<^verbatim>\<open>context.WithTimeout(parent, d)\<close>
  made at time \<open>t\<close> is done from \<open>t + d\<close> on, or when its parent is. Time is a
  count of nanoseconds, as \<^verbatim>\<open>time.Duration\<close> is.
\<close>

datatype Context = Background | RequestContext nat | WithDeadline Context nat

definition Second :: nat where "Second = 1000000000"
definition Minute :: nat where "Minute = 60 * Second"

definition WithTimeout :: "Context \<Rightarrow> nat \<Rightarrow> nat \<Rightarrow> Context" where
  "WithTimeout parent d now = WithDeadline parent (now + d)"

fun ctxDone :: "nat set \<Rightarrow> nat \<Rightarrow> Context \<Rightarrow> bool" where
  "ctxDone cancelled now Background = False"
| "ctxDone cancelled now (RequestContext r) = (r \<in> cancelled)"
| "ctxDone cancelled now (WithDeadline parent deadline) =
     (deadline \<le> now \<or> ctxDone cancelled now parent)"

subsection \<open>MakeInternalRPCAPI and MakeInternalProxyAPI\<close>

datatype ('req, 'res) rpc_json = MessageJSON string | RequestJSON 'req | ResponseJSON 'res

text \<open>\<^verbatim>\<open>util.MessageResponse\<close> and \<^verbatim>\<open>util.ErrorResponse\<close> of matrix-org/util.\<close>

definition MessageResponse :: "int \<Rightarrow> string \<Rightarrow> ('req, 'res) rpc_json JSONResponse" where
  "MessageResponse code msg = \<lparr>Code = code, JSON = MessageJSON msg\<rparr>"

definition ErrorResponse :: "string \<Rightarrow> ('req, 'res) rpc_json JSONResponse" where
  "ErrorResponse err = MessageResponse 500 err"

text \<open>
  The handler function each helper hands to \<^verbatim>\<open>MakeInternalAPI\<close> (which adds metrics
  and tracing around it). \<open>decode\<close> is \<^verbatim>\<open>json.NewDecoder(req.Body).Decode(&request)\<close>:
  \<open>Inl\<close> the error message, \<open>Inr\<close> the decoded request. A Go \<^verbatim>\<open>error\<close> is
  \<open>None\<close> for \<^verbatim>\<open>nil\<close> and \<open>Some\<close> of its message otherwise. A handler that
  receives \<^verbatim>\<open>*reqtype\<close> or \<^verbatim>\<open>*restype\<close> may write through the pointer, so it
  returns the value it leaves there.
\<close>

definition MakeInternalRPCAPI ::
  "('body \<Rightarrow> string + 'req) \<Rightarrow> 'res \<Rightarrow> (Context \<Rightarrow> 'req \<Rightarrow> 'res \<Rightarrow> string option \<times> 'res) \<Rightarrow>
   Context \<Rightarrow> 'body \<Rightarrow> ('req, 'res) rpc_json JSONResponse" where
  "MakeInternalRPCAPI decode zero f ctx body =
     (case decode body of
        Inl err \<Rightarrow> MessageResponse StatusBadRequest err
      | Inr request \<Rightarrow>
          (case f ctx request zero of
             (Some err, response) \<Rightarrow> ErrorResponse err
           | (None, response) \<Rightarrow> \<lparr>Code = StatusOK, JSON = ResponseJSON response\<rparr>))"

definition MakeInternalProxyAPI ::
  "('body \<Rightarrow> string + 'req) \<Rightarrow> (Context \<Rightarrow> 'req \<Rightarrow> 'req) \<Rightarrow>
   Context \<Rightarrow> 'body \<Rightarrow> ('req, 'res) rpc_json JSONResponse" where
  "MakeInternalProxyAPI decode f ctx body =
     (case decode body of
        Inl err \<Rightarrow> MessageResponse StatusBadRequest err
      | Inr request \<Rightarrow> \<lparr>Code = StatusOK, JSON = RequestJSON (f ctx request)\<rparr>)"

subsection \<open>AddRoutes\<close>

text \<open>
  The route path constants are declared in the client half of package inthttp; their
  string values are the parameter \<open>pathOf\<close>. A handler is identified by the helper
  that built it and its metrics name. The router keeps its routes in registration
  order, \<^verbatim>\<open>Handle\<close> appends one, and a request is served by the first route whose
  path matches.
\<close>

datatype path_const =
    FederationAPIQueryJoinedHostServerNamesInRoomPath
  | FederationAPIPerformInviteRequestPath
  | FederationAPIPerformLeaveRequestPath
  | FederationAPIPerformDirectoryLookupRequestPath
  | FederationAPIPerformBroadcastEDUPath
  | FederationAPIPerformJoinRequestPath
  | FederationAPIClaimKeysPath
  | FederationAPIQueryKeysPath
  | FederationAPIBackfillPath
  | FederationAPILookupStatePath
  | FederationAPILookupStateIDsPath
  | FederationAPILookupMissingEventsPath
  | FederationAPIGetEventPath
  | FederationAPIGetEventAuthPath
  | FederationAPIQueryServerKeysPath
  | FederationAPILookupServerKeysPath
  | FederationAPIEventRelationshipsPath
  | FederationAPISpacesSummaryPath
  | FederationAPIQueryPublicKeyPath
  | FederationAPIInputPublicKeyPath

datatype handler = InternalRPCAPI string | InternalProxyAPI string | InternalAPI string

type_synonym router = "(string \<times> handler) list"

definition Handle :: "string \<Rightarrow> handler \<Rightarrow> router \<Rightarrow> router" where
  "Handle path h mux = mux @ [(path, h)]"

fun Match :: "router \<Rightarrow> string \<Rightarrow> handler option" where
  "Match [] p = None"
| "Match ((path, h) # routes) p = (if path = p then Some h else Match routes p)"

definition AddRoutes :: "(path_const \<Rightarrow> string) \<Rightarrow> router \<Rightarrow> router" where
  "AddRoutes pathOf internalAPIMux =
    (Handle (pathOf FederationAPIInputPublicKeyPath) (InternalAPI ''inputPublicKeys'')
    (Handle (pathOf FederationAPIQueryPublicKeyPath) (InternalAPI ''queryPublicKeys'')
    (Handle (pathOf FederationAPISpacesSummaryPath) (InternalProxyAPI ''MSC2946SpacesSummary'')
    (Handle (pathOf FederationAPIEventRelationshipsPath) (InternalProxyAPI ''MSC2836EventRelationships'')
    (Handle (pathOf FederationAPILookupServerKeysPath) (InternalProxyAPI ''LookupServerKeys'')
    (Handle (pathOf FederationAPIQueryServerKeysPath) (InternalRPCAPI ''QueryServerKeys'')
    (Handle (pathOf FederationAPIGetEventAuthPath) (InternalProxyAPI ''GetEventAuth'')
    (Handle (pathOf FederationAPIGetEventPath) (InternalProxyAPI ''GetEvent'')
    (Handle (pathOf FederationAPILookupMissingEventsPath) (InternalProxyAPI ''LookupMissingEvents'')
    (Handle (pathOf FederationAPILookupStateIDsPath) (InternalProxyAPI ''LookupStateIDs'')
    (Handle (pathOf FederationAPILookupStatePath) (InternalProxyAPI ''LookupState'')
    (Handle (pathOf FederationAPIBackfillPath) (InternalProxyAPI ''Backfill'')
    (Handle (pathOf FederationAPIQueryKeysPath) (InternalProxyAPI ''QueryKeys'')
    (Handle (pathOf FederationAPIClaimKeysPath) (InternalProxyAPI ''ClaimKeys'')
    (Handle (pathOf FederationAPIPerformJoinRequestPath) (InternalProxyAPI ''GetUserDevices'')
    (Handle (pathOf FederationAPIPerformJoinRequestPath) (InternalRPCAPI ''PerformJoinRequest'')
    (Handle (pathOf FederationAPIPerformBroadcastEDUPath) (InternalRPCAPI ''PerformBroadcastEDU'')
    (Handle (pathOf FederationAPIPerformDirectoryLookupRequestPath) (InternalRPCAPI ''PerformDirectoryLookupRequest'')
    (Handle (pathOf FederationAPIPerformLeaveRequestPath) (InternalRPCAPI ''PerformLeave'')
    (Handle (pathOf FederationAPIPerformInviteRequestPath) (InternalRPCAPI ''PerformInvite'')
    (Handle (pathOf FederationAPIQueryJoinedHostServerNamesInRoomPath)
       (InternalRPCAPI ''QueryJoinedHostServerNamesInRoom'')
     internalAPIMux)))))))))))))))))))))"


section \<open>The federation send endpoint\<close>

subsection \<open>Data\<close>

type_synonym RawMessage = string
type_synonym ServerName = string
type_synonym RoomVersion = string

text \<open>
  What this code reads of a parsed \<^verbatim>\<open>gomatrixserverlib.Event\<close>: its event ID and its
  room ID; \<open>EventJSON\<close> stands for the rest of the event. A headered event adds the
  room version it was parsed under.
\<close>

record Event =
  EventID :: string
  RoomID :: string
  EventJSON :: RawMessage

record HeaderedEvent = Event +
  RoomVersion :: RoomVersion

definition Headered :: "RoomVersion \<Rightarrow> Event \<Rightarrow> HeaderedEvent" where
  "Headered v e = \<lparr>EventID = EventID e, RoomID = RoomID e, EventJSON = EventJSON e, RoomVersion = v\<rparr>"

record EDU =
  EDUType :: string
  EDUContent :: RawMessage

record PDUResult =
  Error :: string

datatype send_json = JSONNil | MatrixError string string | RespSend "string \<Rightarrow> PDUResult option"

type_synonym response = "send_json JSONResponse"

text \<open>
  Modelled from the spec: package jsonerror of this repository is not among the source
  files. The spec gives the wire form of the two errors this endpoint builds with it:
  \<^verbatim>\<open>{ errcode: "M_BAD_JSON", error }\<close> and \<^verbatim>\<open>{ errcode: "M_NOT_JSON", error }\<close>.
\<close>

definition BadJSON :: "string \<Rightarrow> send_json" where
  "BadJSON msg = MatrixError ''M_BAD_JSON'' msg"

definition NotJSON :: "string \<Rightarrow> send_json" where
  "NotJSON msg = MatrixError ''M_NOT_JSON'' msg"

text \<open>
  The errors a task can end with: \<^verbatim>\<open>context.DeadlineExceeded\<close>, the roomserver's
  \<^verbatim>\<open>*gomatrixserverlib.NotAllowed\<close>, or any other error.
\<close>

datatype task_error = DeadlineExceeded | NotAllowed string | OtherError string

datatype parse_error = BadJSONError string | ParseError string

record txnReq =
  PDUs :: "RawMessage list"
  EDUs :: "EDU list"
  Origin :: ServerName
  TransactionID :: string
  Destination :: ServerName
  work :: string

text \<open>
  \<^verbatim>\<open>inputTask\<close>. Tasks and wait groups are shared between the transaction and the
  room workers through pointers, so they live in a heap and are named by address.
  (\<open>duration\<close> is wall-clock time and is left out.)
\<close>

record inputTask =
  task_ctx :: Context
  task_t :: txnReq
  task_event :: HeaderedEvent
  task_wg :: nat
  task_err :: "task_error option"

text \<open>
  \<^verbatim>\<open>sendFIFOQueue\<close>: \<open>count\<close> is the length of \<open>tasks\<close> at every point where
  the mutex is free, so the model keeps the list only. \<open>notifs\<close> is a channel of capacity 1
  that nothing receives from: it is full or empty.
\<close>

record sendFIFOQueue =
  q_tasks :: "nat list"
  q_notifs :: bool

record inputWorker =
  running :: bool
  input :: sendFIFOQueue

text \<open>A channel of \<^verbatim>\<open>util.JSONResponse\<close>: its buffer, its capacity, whether it is closed.\<close>

record chan =
  ch_buf :: "response list"
  ch_cap :: nat
  ch_closed :: bool

text \<open>
  The process state the endpoint works on: the two \<^verbatim>\<open>sync.Map\<close>s, the heap of
  channels, tasks and wait groups, the worker goroutines started and not yet run, the
  Prometheus counters, the events handed to the roomserver (in order), the clock and
  the set of HTTP requests whose client has gone away. Two more lists keep what the
  calls were made with: \<open>processEventCalls\<close> has, for each call of \<open>processEvent\<close>,
  the context and the event it was given; \<open>sendEventsCtx\<close> has the context of each call
  of \<^verbatim>\<open>api.SendEvents\<close>, in step with \<open>roomserverInput\<close>.
\<close>

record world =
  inFlightTxnsPerOrigin :: "string \<Rightarrow> nat option"
  inputWorkers :: "string \<Rightarrow> inputWorker option"
  chans :: "nat \<Rightarrow> chan option"
  taskHeap :: "nat \<Rightarrow> inputTask option"
  wgHeap :: "nat \<Rightarrow> nat option"
  nextAddr :: nat
  goroutines :: "string list"
  pduCountTotal :: "string \<Rightarrow> nat"
  eduCountTotal :: nat
  processEventSummary :: "(string \<times> string) list"
  roomserverInput :: "(HeaderedEvent \<times> ServerName) list"
  processEventCalls :: "(Context \<times> HeaderedEvent) list"
  sendEventsCtx :: "Context list"
  now :: nat
  cancelled :: "nat set"

text \<open>
  The collaborators outside this file, as functions of what they are asked:
  the two JSON decodings, the roomserver queries, event parsing, signature verification
  and \<^verbatim>\<open>api.SendEvents\<close>. An error is \<open>Inl\<close> (or \<open>Some\<close>) of its message.
\<close>

record env =
  unmarshalTxn :: "RawMessage \<Rightarrow> string + (RawMessage list \<times> EDU list)"
  unmarshalHeader :: "RawMessage \<Rightarrow> string + string"
  QueryRoomVersionForRoom :: "Context \<Rightarrow> string \<Rightarrow> string + RoomVersion"
  NewEventFromUntrustedJSON :: "RawMessage \<Rightarrow> RoomVersion \<Rightarrow> parse_error + Event"
  IsServerBannedFromRoom :: "Context \<Rightarrow> string \<Rightarrow> ServerName \<Rightarrow> bool"
  VerifyEventSignatures :: "Context \<Rightarrow> Event \<Rightarrow> string option"
  SendEvents :: "Context \<Rightarrow> HeaderedEvent \<Rightarrow> ServerName \<Rightarrow> task_error option"


subsection \<open>The per-room queue and worker\<close>

definition newSendFIFOQueue :: sendFIFOQueue where
  "newSendFIFOQueue = \<lparr>q_tasks = [], q_notifs = False\<rparr>"

definition push :: "nat \<Rightarrow> sendFIFOQueue \<Rightarrow> sendFIFOQueue" where
  "push frame q = \<lparr>q_tasks = q_tasks q @ [frame], q_notifs = True\<rparr>"

text \<open>\<open>pop\<close> returns \<open>None\<close> for \<^verbatim>\<open>(nil, false)\<close> and the first task otherwise.\<close>

definition pop :: "sendFIFOQueue \<Rightarrow> nat option \<times> sendFIFOQueue" where
  "pop q = (case q_tasks q of
              [] \<Rightarrow> (None, q)
            | frame # rest \<Rightarrow> (Some frame, q\<lparr>q_tasks := rest\<rparr>))"

definition Inc :: "string \<Rightarrow> (string \<Rightarrow> nat) \<Rightarrow> (string \<Rightarrow> nat)" where
  "Inc label c = c(label := Suc (c label))"

definition MetricsOutcomeOK :: string where "MetricsOutcomeOK = ''ok''"
definition MetricsOutcomeFail :: string where "MetricsOutcomeFail = ''fail''"
definition MetricsOutcomeRejected :: string where "MetricsOutcomeRejected = ''rejected''"

text \<open>
  \<^verbatim>\<open>wg.Add(1)\<close> and \<^verbatim>\<open>wg.Done()\<close>. (\<^verbatim>\<open>Done\<close> on a zero counter panics in Go; every
  task is counted before it is pushed, so a worker never meets one.)
\<close>

definition wgAdd :: "nat \<Rightarrow> world \<Rightarrow> world" where
  "wgAdd wg w = w\<lparr>wgHeap := (wgHeap w)(wg \<mapsto> (case wgHeap w wg of None \<Rightarrow> 1 | Some c \<Rightarrow> Suc c))\<rparr>"

definition wgDone :: "nat \<Rightarrow> world \<Rightarrow> world" where
  "wgDone wg w = w\<lparr>wgHeap := (wgHeap w)(wg \<mapsto> (case wgHeap w wg of None \<Rightarrow> 0 | Some c \<Rightarrow> c - 1))\<rparr>"

text \<open>
  \<open>processEvent\<close> makes no use of the context it is given (the parameter is \<^verbatim>\<open>_\<close>)
  and hands the event to the roomserver under \<^verbatim>\<open>context.Background()\<close>. The call
  and the context of \<^verbatim>\<open>api.SendEvents\<close> are put on record.
\<close>

definition processEvent ::
  "env \<Rightarrow> txnReq \<Rightarrow> Context \<Rightarrow> HeaderedEvent \<Rightarrow> world \<Rightarrow> task_error option \<times> world" where
  "processEvent env t ctx e w =
     (SendEvents env Background e (Origin t),
      w\<lparr>processEventCalls := processEventCalls w @ [(ctx, e)],
        sendEventsCtx := sendEventsCtx w @ [Background],
        roomserverInput := roomserverInput w @ [(e, Origin t)]\<rparr>)"

definition setErr :: "nat \<Rightarrow> inputTask \<Rightarrow> task_error option \<Rightarrow> world \<Rightarrow> world" where
  "setErr a task e w = w\<lparr>taskHeap := (taskHeap w)(a \<mapsto> task\<lparr>task_err := e\<rparr>)\<rparr>"

text \<open>The body of the worker loop for one task: the closure with its deferred \<^verbatim>\<open>wg.Done()\<close>.\<close>

definition runTask :: "env \<Rightarrow> nat \<Rightarrow> inputTask \<Rightarrow> world \<Rightarrow> world" where
  "runTask env a task w =
     wgDone (task_wg task)
       (if ctxDone (cancelled w) (now w) (task_ctx task) then
          (setErr a task (Some DeadlineExceeded) w)\<lparr>pduCountTotal := Inc ''expired'' (pduCountTotal w)\<rparr>
        else
          (let ctx = WithTimeout Background (5 * Minute) (now w);
               (err, w1) = processEvent env (task_t task) ctx (task_event task) w
           in case err of
                Some (NotAllowed m) \<Rightarrow>
                  (setErr a task None w1)
                    \<lparr>processEventSummary :=
                       processEventSummary w1 @ [(work (task_t task), MetricsOutcomeRejected)]\<rparr>
              | Some e \<Rightarrow>
                  (setErr a task (Some e) w1)
                    \<lparr>processEventSummary :=
                       processEventSummary w1 @ [(work (task_t task), MetricsOutcomeFail)]\<rparr>
              | None \<Rightarrow>
                  (setErr a task None w1)
                    \<lparr>pduCountTotal := Inc ''success'' (pduCountTotal w1),
                     processEventSummary :=
                       processEventSummary w1 @ [(work (task_t task), MetricsOutcomeOK)]\<rparr>))"

lemma inputWorkers_runTask [simp]: "inputWorkers (runTask env a task w) = inputWorkers w"
  by (simp add: runTask_def wgDone_def setErr_def processEvent_def Let_def
      split: option.splits task_error.splits)

text \<open>
  \<open>run\<close>, the worker of one room: pop a task, return (resetting \<open>running\<close>, the
  deferred store) when there is none, skip a nil task, run the task otherwise.
\<close>

function run :: "env \<Rightarrow> string \<Rightarrow> world \<Rightarrow> world" where
  "run env room w =
     (case inputWorkers w room of
        None \<Rightarrow> w
      | Some t \<Rightarrow>
          (case pop (input t) of
             (None, q) \<Rightarrow> w\<lparr>inputWorkers := (inputWorkers w)(room \<mapsto> t\<lparr>running := False\<rparr>)\<rparr>
           | (Some a, q) \<Rightarrow>
               (let w1 = w\<lparr>inputWorkers := (inputWorkers w)(room \<mapsto> t\<lparr>input := q\<rparr>)\<rparr>
                in case taskHeap w1 a of
                     None \<Rightarrow> run env room w1
                   | Some task \<Rightarrow> run env room (runTask env a task w1))))"
  by pat_completeness auto
termination
  by (relation "measure (\<lambda>(env, room, w).
        case inputWorkers w room of None \<Rightarrow> 0 | Some t \<Rightarrow> length (q_tasks (input t)))")
     (auto simp: pop_def split: list.splits)

declare run.simps [simp del]


subsection \<open>processTransaction\<close>

text \<open>The locals of \<open>processTransaction\<close> that the loop over the PDUs updates.\<close>

record txn_local =
  l_results :: "string \<Rightarrow> PDUResult option"
  l_tasks :: "nat list"

text \<open>
  One iteration of the loop over \<^verbatim>\<open>t.PDUs\<close>. The first component is \<open>Some\<close> of the
  response when the iteration returns from \<open>processTransaction\<close>, and \<open>None\<close> when
  the loop goes on (\<^verbatim>\<open>continue\<close>, or the end of the body). The last steps are
  \<^verbatim>\<open>inputWorkers.LoadOrStore\<close>, \<^verbatim>\<open>wg.Add(1)\<close>, the new task, \<^verbatim>\<open>push\<close>, and
  \<^verbatim>\<open>running.CAS(false, true)\<close> with \<^verbatim>\<open>go worker.run()\<close> when it succeeds.
\<close>

definition processPDU ::
  "env \<Rightarrow> Context \<Rightarrow> txnReq \<Rightarrow> nat \<Rightarrow> RawMessage \<Rightarrow> txn_local \<Rightarrow> world \<Rightarrow>
   response option \<times> txn_local \<times> world" where
  "processPDU env ctx t wg pdu l w0 =
     (let w = w0\<lparr>pduCountTotal := Inc ''total'' (pduCountTotal w0)\<rparr> in
      case unmarshalHeader env pdu of
        Inl err \<Rightarrow> (None, l, w)
      | Inr roomID \<Rightarrow>
     (case QueryRoomVersionForRoom env ctx roomID of
        Inl err \<Rightarrow> (None, l, w)
      | Inr roomVersion \<Rightarrow>
     (case NewEventFromUntrustedJSON env pdu roomVersion of
        Inl (BadJSONError m) \<Rightarrow>
          (Some \<lparr>Code = 400, JSON = BadJSON ''PDU contains bad JSON''\<rparr>, l, w)
      | Inl (ParseError m) \<Rightarrow> (None, l, w)
      | Inr event \<Rightarrow>
          if IsServerBannedFromRoom env ctx (RoomID event) (Origin t) then
            (None,
             l\<lparr>l_results := (l_results l)(EventID event \<mapsto> \<lparr>Error = ''Forbidden by server ACLs''\<rparr>)\<rparr>,
             w)
          else
     (case VerifyEventSignatures env ctx event of
        Some err \<Rightarrow>
          (None, l\<lparr>l_results := (l_results l)(EventID event \<mapsto> \<lparr>Error = err\<rparr>)\<rparr>, w)
      | None \<Rightarrow>
          (let worker = (case inputWorkers w (RoomID event) of
                           Some v \<Rightarrow> v
                         | None \<Rightarrow> \<lparr>running = False, input = newSendFIFOQueue\<rparr>);
               w1 = wgAdd wg w;
               a = nextAddr w1;
               task = \<lparr>task_ctx = ctx, task_t = t, task_event = Headered roomVersion event,
                       task_wg = wg, task_err = None\<rparr>;
               worker1 = worker\<lparr>input := push a (input worker)\<rparr>;
               w2 = w1\<lparr>taskHeap := (taskHeap w1)(a \<mapsto> task), nextAddr := Suc a,
                       inputWorkers := (inputWorkers w1)(RoomID event \<mapsto> worker1\<lparr>running := True\<rparr>),
                       goroutines := (if running worker1 then goroutines w1
                                      else goroutines w1 @ [RoomID event])\<rparr>
           in (None, l\<lparr>l_tasks := l_tasks l @ [a]\<rparr>, w2))))))"

fun processPDUs ::
  "env \<Rightarrow> Context \<Rightarrow> txnReq \<Rightarrow> nat \<Rightarrow> RawMessage list \<Rightarrow> txn_local \<Rightarrow> world \<Rightarrow>
   response option \<times> txn_local \<times> world" where
  "processPDUs env ctx t wg [] l w = (None, l, w)"
| "processPDUs env ctx t wg (pdu # pdus) l w =
     (case processPDU env ctx t wg pdu l w of
        (Some r, l', w') \<Rightarrow> (Some r, l', w')
      | (None, l', w') \<Rightarrow> processPDUs env ctx t wg pdus l' w')"

text \<open>
  The EDU dispatcher counts each EDU and calls the EDU server and the key server; it
  reads and writes nothing else of the state modelled here.
\<close>

definition processEDUs :: "txnReq \<Rightarrow> world \<Rightarrow> world" where
  "processEDUs t w = w\<lparr>eduCountTotal := eduCountTotal w + length (EDUs t)\<rparr>"

text \<open>
  \<^verbatim>\<open>wg.Wait()\<close> returns at once when the counter is zero. Otherwise the transaction
  blocks and the scheduler runs the worker goroutines that were started, each to its
  end, oldest first; the wait returns if the counter is zero then, and never if it is
  not (\<open>False\<close>): nothing is left that could count it down.
\<close>

definition runGoroutines :: "env \<Rightarrow> world \<Rightarrow> world" where
  "runGoroutines env w = fold (run env) (goroutines w) (w\<lparr>goroutines := []\<rparr>)"

definition wgWait :: "env \<Rightarrow> nat \<Rightarrow> world \<Rightarrow> bool \<times> world" where
  "wgWait env wg w =
     (if wgHeap w wg = Some 0 then (True, w)
      else (let w' = runGoroutines env w in (wgHeap w' wg = Some 0, w')))"

text \<open>The loop over \<open>tasks\<close> after the wait: both branches store the empty result.\<close>

fun aggregate ::
  "world \<Rightarrow> nat list \<Rightarrow> (string \<Rightarrow> PDUResult option) \<Rightarrow> (string \<Rightarrow> PDUResult option)" where
  "aggregate w [] results = results"
| "aggregate w (a # as) results =
     (case taskHeap w a of
        None \<Rightarrow> aggregate w as results
      | Some task \<Rightarrow>
          if task_err task \<noteq> None then
            aggregate w as (results(EventID (task_event task) \<mapsto> \<lparr>Error = []\<rparr>))
          else
            aggregate w as (results(EventID (task_event task) \<mapsto> \<lparr>Error = []\<rparr>)))"

text \<open>
  \<open>processTransaction\<close> returns \<open>Inl\<close> of the error response or \<open>Inr\<close> of the PDU
  result map of \<^verbatim>\<open>RespSend\<close>, and \<open>None\<close> when \<^verbatim>\<open>wg.Wait()\<close> never returns.
\<close>

definition processTransaction ::
  "env \<Rightarrow> Context \<Rightarrow> txnReq \<Rightarrow> world \<Rightarrow>
   (response + (string \<Rightarrow> PDUResult option)) option \<times> world" where
  "processTransaction env ctx t w0 =
     (let wg = nextAddr w0;
          w = w0\<lparr>wgHeap := (wgHeap w0)(wg \<mapsto> 0), nextAddr := Suc wg\<rparr>
      in case processPDUs env ctx t wg (PDUs t) \<lparr>l_results = Map.empty, l_tasks = []\<rparr> w of
           (Some r, l, w1) \<Rightarrow> (Some (Inl r), w1)
         | (None, l, w1) \<Rightarrow>
             (case wgWait env wg (processEDUs t w1) of
                (False, w2) \<Rightarrow> (None, w2)
              | (True, w2) \<Rightarrow> (Some (Inr (aggregate w2 (l_tasks l) (l_results l))), w2)))"


subsection \<open>Send\<close>

text \<open>
  One invocation of \<open>Send\<close> is a goroutine that shares the in-flight registry and
  the result channels with the other invocations, so it is modelled by the steps it
  takes on the shared state, one per access to it. \<open>pc\<close> says where the invocation
  stands:
  \<^item> \<open>AtLoadOrStore\<close>: about to run \<^verbatim>\<open>inFlightTxnsPerOrigin.LoadOrStore\<close>;
  \<^item> \<open>AtSelect ch ctx\<close>: a follower in its \<^verbatim>\<open>select\<close> on \<open>ctx.Done()\<close> and \<open>ch\<close>;
  \<^item> \<open>AtBody ch ds\<close>: the leader, its two deferred calls registered, about to decode
    and process the transaction;
  \<^item> \<open>AtChanSend ch res ds\<close>: the leader at \<^verbatim>\<open>ch <- res\<close>;
  \<^item> \<open>AtReturn ds res\<close>: returning \<open>res\<close>, the deferred calls \<open>ds\<close> still to run
    (the head first: Go runs deferred calls last-in, first-out);
  \<^item> \<open>Returned res\<close>: the invocation has returned \<open>res\<close>;
  \<^item> \<open>Blocked\<close>: the leader waits in \<^verbatim>\<open>wg.Wait()\<close> for ever;
  \<^item> \<open>Panicked\<close>: a send on a closed channel, or closing a closed channel.
\<close>

datatype deferred = DeferClose nat | DeferDelete string

datatype pc =
    AtLoadOrStore
  | AtSelect nat Context
  | AtBody nat "deferred list"
  | AtChanSend nat response "deferred list"
  | AtReturn "deferred list" response
  | Returned response
  | Blocked
  | Panicked

text \<open>
  The arguments of an invocation: the HTTP request (its context is
  \<open>RequestContext (httpReq th)\<close>), the origin and content of the federation request,
  the transaction ID, and this server's name from the configuration.
\<close>

record invocation =
  httpReq :: nat
  reqOrigin :: ServerName
  reqContent :: RawMessage
  txnID :: string
  cfgServerName :: ServerName
  at :: pc

definition deferCall :: "deferred \<Rightarrow> deferred list \<Rightarrow> deferred list" where
  "deferCall d ds = d # ds"

definition makeChan :: "nat \<Rightarrow> chan" where
  "makeChan n = \<lparr>ch_buf = [], ch_cap = n, ch_closed = False\<rparr>"

definition txnIndex :: "ServerName \<Rightarrow> string \<Rightarrow> string" where
  "txnIndex origin txn = origin @ [CHR 0x00] @ txn"

text \<open>Receiving is possible when the buffer holds a value or the channel is closed.\<close>

definition chanReady :: "world \<Rightarrow> nat \<Rightarrow> bool" where
  "chanReady w ch = (case chans w ch of None \<Rightarrow> False | Some c \<Rightarrow> ch_buf c \<noteq> [] \<or> ch_closed c)"

text \<open>
  A receive takes the oldest buffered value; on a closed and empty channel it yields
  the zero \<^verbatim>\<open>util.JSONResponse\<close>.
\<close>

definition chanRecv :: "world \<Rightarrow> nat \<Rightarrow> response \<times> world" where
  "chanRecv w ch =
     (case chans w ch of
        None \<Rightarrow> (\<lparr>Code = 0, JSON = JSONNil\<rparr>, w)
      | Some c \<Rightarrow>
          (case ch_buf c of
             [] \<Rightarrow> (\<lparr>Code = 0, JSON = JSONNil\<rparr>, w)
           | v # rest \<Rightarrow> (v, w\<lparr>chans := (chans w)(ch \<mapsto> c\<lparr>ch_buf := rest\<rparr>)\<rparr>)))"

text \<open>
  The follower's \<^verbatim>\<open>select\<close>: \<open>None\<close> while neither case is ready; when both are, Go
  picks one at random, here \<open>pick\<close> (\<open>True\<close> for the \<open>ctx.Done()\<close> case).
\<close>

definition followerSelect :: "bool \<Rightarrow> nat \<Rightarrow> Context \<Rightarrow> world \<Rightarrow> (response \<times> world) option" where
  "followerSelect pick ch ctx w =
     (let done = ctxDone (cancelled w) (now w) ctx; ready = chanReady w ch in
      if done \<and> (\<not> ready \<or> pick) then
        Some (\<lparr>Code = StatusRequestTimeout, JSON = JSONNil\<rparr>, w)
      else if ready then
        (case chanRecv w ch of
           (res, w') \<Rightarrow>
             if Code res = 0 then Some (\<lparr>Code = StatusAccepted, JSON = JSONNil\<rparr>, w')
             else Some (res, w'))
      else None)"

text \<open>
  The leader's work between registering its deferred calls and \<^verbatim>\<open>ch <- res\<close>: decode
  the envelope, enforce the size limits, fill in the transaction and process it under
  \<^verbatim>\<open>context.Background()\<close>. \<open>Inl\<close> is the response of an early \<^verbatim>\<open>return\<close>,
  \<open>Inr\<close> the response to publish; \<open>None\<close> when processing never returns.
\<close>

definition leaderBody :: "env \<Rightarrow> invocation \<Rightarrow> world \<Rightarrow> (response + response) option \<times> world" where
  "leaderBody env th w =
     (case unmarshalTxn env (reqContent th) of
        Inl err \<Rightarrow>
          (Some (Inl \<lparr>Code = StatusBadRequest,
                      JSON = NotJSON (''The request body could not be decoded into valid JSON. '' @ err)\<rparr>), w)
      | Inr (pdus, edus) \<Rightarrow>
          if length pdus > 50 \<or> length edus > 100 then
            (Some (Inl \<lparr>Code = StatusBadRequest, JSON = BadJSON ''max 50 pdus / 100 edus''\<rparr>), w)
          else
            (let t = \<lparr>PDUs = pdus, EDUs = edus, Origin = reqOrigin th, TransactionID = txnID th,
                      Destination = cfgServerName th, work = []\<rparr>
             in case processTransaction env Background t w of
                  (None, w') \<Rightarrow> (None, w')
                | (Some (Inl jsonErr), w') \<Rightarrow> (Some (Inl jsonErr), w')
                | (Some (Inr resp), w') \<Rightarrow> (Some (Inr \<lparr>Code = StatusOK, JSON = RespSend resp\<rparr>), w')))"

definition runDeferred :: "deferred \<Rightarrow> world \<Rightarrow> world option" where
  "runDeferred d w =
     (case d of
        DeferDelete index \<Rightarrow> Some (w\<lparr>inFlightTxnsPerOrigin := (inFlightTxnsPerOrigin w)(index := None)\<rparr>)
      | DeferClose ch \<Rightarrow>
          (case chans w ch of
             None \<Rightarrow> None
           | Some c \<Rightarrow> if ch_closed c then None
                       else Some (w\<lparr>chans := (chans w)(ch \<mapsto> c\<lparr>ch_closed := True\<rparr>)\<rparr>)))"

text \<open>
  One step of an invocation; \<open>None\<close> when it cannot move (it waits, or it is over).
\<close>

definition SendStep :: "env \<Rightarrow> bool \<Rightarrow> invocation \<Rightarrow> world \<Rightarrow> (invocation \<times> world) option" where
  "SendStep env pick th w =
     (case at th of
        AtLoadOrStore \<Rightarrow>
          (let index = txnIndex (reqOrigin th) (txnID th);
               new = nextAddr w;
               w1 = w\<lparr>chans := (chans w)(new \<mapsto> makeChan 1), nextAddr := Suc new\<rparr>
           in case inFlightTxnsPerOrigin w1 index of
                Some ch \<Rightarrow>
                  Some (th\<lparr>at := AtSelect ch (WithTimeout (RequestContext (httpReq th)) (5 * Minute) (now w1))\<rparr>,
                        w1)
              | None \<Rightarrow>
                  Some (th\<lparr>at := AtBody new (deferCall (DeferDelete index) (deferCall (DeferClose new) []))\<rparr>,
                        w1\<lparr>inFlightTxnsPerOrigin := (inFlightTxnsPerOrigin w1)(index \<mapsto> new)\<rparr>))
      | AtSelect ch ctx \<Rightarrow>
          (case followerSelect pick ch ctx w of
             None \<Rightarrow> None
           | Some (res, w') \<Rightarrow> Some (th\<lparr>at := Returned res\<rparr>, w'))
      | AtBody ch ds \<Rightarrow>
          (case leaderBody env th w of
             (None, w') \<Rightarrow> Some (th\<lparr>at := Blocked\<rparr>, w')
           | (Some (Inl res), w') \<Rightarrow> Some (th\<lparr>at := AtReturn ds res\<rparr>, w')
           | (Some (Inr res), w') \<Rightarrow> Some (th\<lparr>at := AtChanSend ch res ds\<rparr>, w'))
      | AtChanSend ch res ds \<Rightarrow>
          (case chans w ch of
             None \<Rightarrow> None
           | Some c \<Rightarrow>
               if ch_closed c then Some (th\<lparr>at := Panicked\<rparr>, w)
               else if length (ch_buf c) < ch_cap c then
                 Some (th\<lparr>at := AtReturn ds res\<rparr>,
                       w\<lparr>chans := (chans w)(ch \<mapsto> c\<lparr>ch_buf := ch_buf c @ [res]\<rparr>)\<rparr>)
               else None)
      | AtReturn ds res \<Rightarrow>
          (case ds of
             [] \<Rightarrow> Some (th\<lparr>at := Returned res\<rparr>, w)
           | d # ds' \<Rightarrow>
               (case runDeferred d w of
                  None \<Rightarrow> Some (th\<lparr>at := Panicked\<rparr>, w)
                | Some w' \<Rightarrow> Some (th\<lparr>at := AtReturn ds' res\<rparr>, w')))
      | Returned res \<Rightarrow> None
      | Blocked \<Rightarrow> None
      | Panicked \<Rightarrow> None)"

text \<open>
  One invocation running alone, with no other goroutine taking a step in between:
  its steps are iterated until it cannot move. Eight steps are more than the longest
  path through \<open>Send\<close> takes.
\<close>

fun SendSteps :: "env \<Rightarrow> nat \<Rightarrow> invocation \<Rightarrow> world \<Rightarrow> invocation \<times> world" where
  "SendSteps env 0 th w = (th, w)"
| "SendSteps env (Suc n) th w =
     (case SendStep env True th w of
        None \<Rightarrow> (th, w)
      | Some (th', w') \<Rightarrow> SendSteps env n th' w')"

definition Send :: "env \<Rightarrow> invocation \<Rightarrow> world \<Rightarrow> response option \<times> world" where
  "Send env th w =
     (case SendSteps env 8 (th\<lparr>at := AtLoadOrStore\<rparr>) w of
        (th', w') \<Rightarrow> (case at th' of Returned res \<Rightarrow> Some res | _ \<Rightarrow> None, w'))"

text \<open>
  Several invocations at once: a schedule is a list of actions, each a step of one
  invocation (with the pick its \<^verbatim>\<open>select\<close> would make), the client of one HTTP
  request going away, time passing, or the scheduler running the oldest worker
  goroutine. An action that is not possible leaves the state as it is.
\<close>

datatype action = Step nat bool | Cancel nat | Tick nat | Work

fun exec1 :: "env \<Rightarrow> action \<Rightarrow> invocation list \<times> world \<Rightarrow> invocation list \<times> world" where
  "exec1 env (Step i pick) (ths, w) =
     (if i < length ths then
        (case SendStep env pick (ths ! i) w of
           None \<Rightarrow> (ths, w)
         | Some (th', w') \<Rightarrow> (ths[i := th'], w'))
      else (ths, w))"
| "exec1 env (Cancel r) (ths, w) = (ths, w\<lparr>cancelled := insert r (cancelled w)\<rparr>)"
| "exec1 env (Tick d) (ths, w) = (ths, w\<lparr>now := now w + d\<rparr>)"
| "exec1 env Work (ths, w) =
     (case goroutines w of
        [] \<Rightarrow> (ths, w)
      | room # rest \<Rightarrow> (ths, run env room (w\<lparr>goroutines := rest\<rparr>)))"

definition exec :: "env \<Rightarrow> action list \<Rightarrow> invocation list \<times> world \<Rightarrow> invocation list \<times> world" where
  "exec env sched c = fold (exec1 env) sched c"

section \<open>A small concrete setting\<close>

text \<open>
  The idle process: nothing in flight, no worker, empty heap. The example collaborators:
  a transaction body is \<open>not json\<close>, one of three named bodies, or a string whose
  letters are its PDUs. PDU \<open>X\<close> is not canonical JSON; \<open>N\<close> is event \<open>$N\<close> in
  room \<open>!banned\<close>, whose ACL bans every origin; \<open>F\<close> and \<open>G\<close> are two copies of
  event \<open>$f\<close> in room \<open>!r\<close>, \<open>F\<close> with a signature that does not verify and \<open>G\<close>
  with one that does; any other letter \<open>c\<close> is event \<open>$c\<close> in room \<open>!r\<close>. Every room
  has version 6, and the roomserver accepts every event.
\<close>

definition idleWorld :: world where
  "idleWorld =
     \<lparr>inFlightTxnsPerOrigin = Map.empty, inputWorkers = Map.empty, chans = Map.empty,
      taskHeap = Map.empty, wgHeap = Map.empty, nextAddr = 0, goroutines = [],
      pduCountTotal = (\<lambda>label. 0), eduCountTotal = 0, processEventSummary = [],
      roomserverInput = [], processEventCalls = [], sendEventsCtx = [], now = 0,
      cancelled = {}\<rparr>"

definition exampleEvent :: "RawMessage \<Rightarrow> Event" where
  "exampleEvent pdu =
     \<lparr>EventID = (if pdu = ''F'' \<or> pdu = ''G'' then ''$f'' else CHR ''$'' # pdu),
      RoomID = (if pdu = ''N'' then ''!banned'' else ''!r''),
      EventJSON = pdu\<rparr>"

definition exampleEnv :: env where
  "exampleEnv =
     \<lparr>unmarshalTxn = (\<lambda>content.
        if content = ''not json'' then Inl ''invalid character''
        else if content = ''51 pdus'' then Inr (replicate 51 ''A'', [])
        else if content = ''101 edus'' then
          Inr ([], replicate 101 \<lparr>EDUType = ''m.typing'', EDUContent = ''{}''\<rparr>)
        else if content = ''50 pdus 100 edus'' then
          Inr (replicate 50 ''A'', replicate 100 \<lparr>EDUType = ''m.typing'', EDUContent = ''{}''\<rparr>)
        else Inr (map (\<lambda>c. [c]) content, [])),
      unmarshalHeader = (\<lambda>pdu. Inr (if pdu = ''N'' then ''!banned'' else ''!r'')),
      QueryRoomVersionForRoom = (\<lambda>ctx roomID. Inr ''6''),
      NewEventFromUntrustedJSON = (\<lambda>pdu roomVersion.
        if pdu = ''X'' then Inl (BadJSONError ''value is outside of safe range'')
        else Inr (exampleEvent pdu)),
      IsServerBannedFromRoom = (\<lambda>ctx roomID origin. roomID = ''!banned''),
      VerifyEventSignatures = (\<lambda>ctx event.
        if EventJSON event = ''F'' then Some ''bad signature'' else None),
      SendEvents = (\<lambda>ctx event origin. None)\<rparr>"

definition exampleTxn :: "RawMessage list \<Rightarrow> txnReq" where
  "exampleTxn pdus =
     \<lparr>PDUs = pdus, EDUs = [], Origin = ''a.example'', TransactionID = ''t1'',
      Destination = ''local.example'', work = []\<rparr>"

definition exampleSend :: "nat \<Rightarrow> RawMessage \<Rightarrow> invocation" where
  "exampleSend r content =
     \<lparr>httpReq = r, reqOrigin = ''a.example'', reqContent = content, txnID = ''t1'',
      cfgServerName = ''local.example'', at = AtLoadOrStore\<rparr>"

text \<open>
  A process in which a leader for origin \<open>a.example\<close> and transaction \<open>t1\<close> is at
  work: its entry is in the registry and names channel 0, here in state \<open>c\<close>; the
  time is \<open>t\<close> and the requests in \<open>cs\<close> are cancelled.
\<close>

definition attachedWorld :: "chan \<Rightarrow> nat \<Rightarrow> nat set \<Rightarrow> world" where
  "attachedWorld c t cs =
     idleWorld\<lparr>inFlightTxnsPerOrigin := [txnIndex ''a.example'' ''t1'' \<mapsto> 0],
               chans := [0 \<mapsto> c], nextAddr := 1, now := t, cancelled := cs\<rparr>"

definition emptyResponse :: response where
  "emptyResponse = \<lparr>Code = 200, JSON = RespSend Map.empty\<rparr>"

section \<open>Properties of the internal API helpers\<close>

lemma AddRoutes_append: "AddRoutes pathOf mux = mux @ AddRoutes pathOf []"
  by (simp add: AddRoutes_def Handle_def)

lemma Match_append:
  "Match (xs @ ys) p = (case Match xs p of Some h \<Rightarrow> Some h | None \<Rightarrow> Match ys p)"
  by (induction xs) auto

lemma Match_Some_mem: "Match xs p = Some h \<Longrightarrow> h \<in> snd ` set xs"
  by (induction xs) (auto split: if_splits)

lemma Match_AddRoutes_ne:
  "Match (AddRoutes pathOf []) p \<noteq> Some (InternalProxyAPI ''GetUserDevices'')"
  by (simp add: AddRoutes_def Handle_def)

lemma Match_AddRoutes_None: "\<forall>c. pathOf c \<noteq> p \<Longrightarrow> Match (AddRoutes pathOf []) p = None"
  by (simp add: AddRoutes_def Handle_def)

text \<open>
  C6 (the code departs from it). The proxy helper of this file takes a handler
  \<^verbatim>\<open>func(context.Context, *reqtype)\<close> that returns nothing. Whatever the handler does,
  a body that decodes is answered with status 200 and the \<^emph>\<open>request\<close> as the JSON
  payload: never a response value of the handler, never an error envelope. (A body that
  does not decode is answered with status 400 and the decoder's message, as the RPC
  helper does.)
\<close>

theorem MakeInternalProxyAPI_echoes_request:
  "decode body = Inr request \<Longrightarrow>
     MakeInternalProxyAPI decode f ctx body = \<lparr>Code = 200, JSON = RequestJSON (f ctx request)\<rparr>
     \<and> (\<forall>response. JSON (MakeInternalProxyAPI decode f ctx body) \<noteq> ResponseJSON response)
     \<and> (\<forall>err. JSON (MakeInternalProxyAPI decode f ctx body) \<noteq> MessageJSON err)"
  by (simp add: MakeInternalProxyAPI_def StatusOK_def)

theorem MakeInternalProxyAPI_echoes_request_witness:
  "MakeInternalProxyAPI (\<lambda>b. if b = ''{'' then Inl ''unexpected EOF'' else Inr b) (\<lambda>ctx r. r)
      (RequestContext 0) ''{}''
   = (\<lparr>Code = 200, JSON = RequestJSON ''{}''\<rparr> :: (string, string) rpc_json JSONResponse)"
  by (rule MakeInternalProxyAPI_echoes_request [THEN conjunct1]) simp

text \<open>
  C10. \<open>AddRoutes\<close> registers the GetUserDevices handler once, right after the
  PerformJoinRequest handler and under the same path
  \<open>FederationAPIPerformJoinRequestPath\<close>. The router serves a path by its first
  matching route, so no path is served by the GetUserDevices handler; and a path that
  is not the value of one of the path constants \<open>AddRoutes\<close> uses gets no route from
  it. (\<open>mux\<close> is the router before the call; the handler is built inside
  \<open>AddRoutes\<close>, so \<open>mux\<close> does not hold it.)
\<close>

theorem AddRoutes_GetUserDevices_shadowed:
  assumes "InternalProxyAPI ''GetUserDevices'' \<notin> snd ` set mux"
  shows "(\<exists>pre post.
            AddRoutes pathOf mux =
              pre @ [(pathOf FederationAPIPerformJoinRequestPath, InternalRPCAPI ''PerformJoinRequest''),
                     (pathOf FederationAPIPerformJoinRequestPath, InternalProxyAPI ''GetUserDevices'')]
                  @ post
            \<and> InternalProxyAPI ''GetUserDevices'' \<notin> snd ` set pre
            \<and> InternalProxyAPI ''GetUserDevices'' \<notin> snd ` set post)
         \<and> Match (AddRoutes pathOf mux) p \<noteq> Some (InternalProxyAPI ''GetUserDevices'')
         \<and> ((\<forall>c. pathOf c \<noteq> p) \<longrightarrow> Match (AddRoutes pathOf mux) p = Match mux p)"
proof (intro conjI impI)
  let ?pre = "mux @
    [(pathOf FederationAPIQueryJoinedHostServerNamesInRoomPath,
        InternalRPCAPI ''QueryJoinedHostServerNamesInRoom''),
     (pathOf FederationAPIPerformInviteRequestPath, InternalRPCAPI ''PerformInvite''),
     (pathOf FederationAPIPerformLeaveRequestPath, InternalRPCAPI ''PerformLeave''),
     (pathOf FederationAPIPerformDirectoryLookupRequestPath,
        InternalRPCAPI ''PerformDirectoryLookupRequest''),
     (pathOf FederationAPIPerformBroadcastEDUPath, InternalRPCAPI ''PerformBroadcastEDU'')]"
  let ?post =
    "[(pathOf FederationAPIClaimKeysPath, InternalProxyAPI ''ClaimKeys''),
      (pathOf FederationAPIQueryKeysPath, InternalProxyAPI ''QueryKeys''),
      (pathOf FederationAPIBackfillPath, InternalProxyAPI ''Backfill''),
      (pathOf FederationAPILookupStatePath, InternalProxyAPI ''LookupState''),
      (pathOf FederationAPILookupStateIDsPath, InternalProxyAPI ''LookupStateIDs''),
      (pathOf FederationAPILookupMissingEventsPath, InternalProxyAPI ''LookupMissingEvents''),
      (pathOf FederationAPIGetEventPath, InternalProxyAPI ''GetEvent''),
      (pathOf FederationAPIGetEventAuthPath, InternalProxyAPI ''GetEventAuth''),
      (pathOf FederationAPIQueryServerKeysPath, InternalRPCAPI ''QueryServerKeys''),
      (pathOf FederationAPILookupServerKeysPath, InternalProxyAPI ''LookupServerKeys''),
      (pathOf FederationAPIEventRelationshipsPath, InternalProxyAPI ''MSC2836EventRelationships''),
      (pathOf FederationAPISpacesSummaryPath, InternalProxyAPI ''MSC2946SpacesSummary''),
      (pathOf FederationAPIQueryPublicKeyPath, InternalAPI ''queryPublicKeys''),
      (pathOf FederationAPIInputPublicKeyPath, InternalAPI ''inputPublicKeys'')]"
  have "AddRoutes pathOf mux =
          ?pre @ [(pathOf FederationAPIPerformJoinRequestPath, InternalRPCAPI ''PerformJoinRequest''),
                  (pathOf FederationAPIPerformJoinRequestPath, InternalProxyAPI ''GetUserDevices'')]
               @ ?post"
    by (simp add: AddRoutes_def Handle_def)
  moreover have "InternalProxyAPI ''GetUserDevices'' \<notin> snd ` set ?pre"
    using assms by auto
  moreover have "InternalProxyAPI ''GetUserDevices'' \<notin> snd ` set ?post"
    by simp
  ultimately show "\<exists>pre post.
      AddRoutes pathOf mux =
        pre @ [(pathOf FederationAPIPerformJoinRequestPath, InternalRPCAPI ''PerformJoinRequest''),
               (pathOf FederationAPIPerformJoinRequestPath, InternalProxyAPI ''GetUserDevices'')]
            @ post
      \<and> InternalProxyAPI ''GetUserDevices'' \<notin> snd ` set pre
      \<and> InternalProxyAPI ''GetUserDevices'' \<notin> snd ` set post"
    by blast
next
  have "Match mux p \<noteq> Some (InternalProxyAPI ''GetUserDevices'')"
    using assms Match_Some_mem by fastforce
  then show "Match (AddRoutes pathOf mux) p \<noteq> Some (InternalProxyAPI ''GetUserDevices'')"
    using Match_AddRoutes_ne [of pathOf p]
    by (subst AddRoutes_append) (auto simp: Match_append split: option.splits)
next
  assume "\<forall>c. pathOf c \<noteq> p"
  then show "Match (AddRoutes pathOf mux) p = Match mux p"
    using Match_AddRoutes_None [of pathOf p]
    by (subst AddRoutes_append) (simp add: Match_append split: option.splits)
qed

theorem AddRoutes_GetUserDevices_shadowed_witness:
  "Match (AddRoutes (\<lambda>c. if c = FederationAPIPerformJoinRequestPath
                          then ''/federationapi/performJoinRequest'' else ''/federationapi/other'') [])
         ''/federationapi/performJoinRequest'' = Some (InternalRPCAPI ''PerformJoinRequest'')
   \<and> Match (AddRoutes (\<lambda>c. if c = FederationAPIPerformJoinRequestPath
                          then ''/federationapi/performJoinRequest'' else ''/federationapi/other'') [])
         ''/federationapi/client/getUserDevices'' = None"
  using AddRoutes_GetUserDevices_shadowed
    [of "[]" "\<lambda>c. if c = FederationAPIPerformJoinRequestPath
                   then ''/federationapi/performJoinRequest'' else ''/federationapi/other''"
        "''/federationapi/client/getUserDevices''"]
  by (simp add: AddRoutes_def Handle_def)

section \<open>What the transaction pipeline leaves alone\<close>

text \<open>
  Processing a transaction and running a worker touch neither the in-flight registry
  nor the result channels, the clock or the set of cancelled requests, and only ever
  raise the allocation counter.
\<close>

definition frame :: "world \<Rightarrow> world \<Rightarrow> bool" where
  "frame w w' \<longleftrightarrow>
     chans w' = chans w \<and> inFlightTxnsPerOrigin w' = inFlightTxnsPerOrigin w \<and>
     now w' = now w \<and> cancelled w' = cancelled w \<and> nextAddr w \<le> nextAddr w'"

lemma frame_refl [simp]: "frame w w"
  by (simp add: frame_def)

lemma frame_trans: "frame w w' \<Longrightarrow> frame w' w'' \<Longrightarrow> frame w w''"
  by (simp add: frame_def)

lemma frame_runTask: "frame w (runTask env a task w)"
  by (simp add: frame_def runTask_def wgDone_def setErr_def processEvent_def Let_def
      split: option.splits task_error.splits)

lemma frame_run: "frame w (run env room w)"
proof (induction env room w rule: run.induct)
  case (1 env room w)
  show ?case
  proof (cases "inputWorkers w room")
    case None
    then show ?thesis by (simp add: run.simps [of env room w])
  next
    case (Some t)
    show ?thesis
    proof (cases "q_tasks (input t)")
      case Nil
      with Some show ?thesis
        by (simp add: run.simps [of env room w] pop_def frame_def)
    next
      case (Cons a rest)
      let ?q = "(input t)\<lparr>q_tasks := rest\<rparr>"
      let ?w1 = "w\<lparr>inputWorkers := (inputWorkers w)(room \<mapsto> t\<lparr>input := ?q\<rparr>)\<rparr>"
      have pop: "pop (input t) = (Some a, ?q)"
        using Cons by (simp add: pop_def)
      have f1: "frame w ?w1" by (simp add: frame_def)
      show ?thesis
      proof (cases "taskHeap ?w1 a")
        case None
        have "frame ?w1 (run env room ?w1)"
          using "1.IH"(1) [OF Some pop [symmetric] refl refl None] .
        with f1 have "frame w (run env room ?w1)" by (rule frame_trans)
        then show ?thesis
          using Some pop None by (simp add: run.simps [of env room w])
      next
        case (Some task)
        have "frame (runTask env a task ?w1) (run env room (runTask env a task ?w1))"
          using "1.IH"(2) [OF \<open>inputWorkers w room = Some t\<close> pop [symmetric] refl refl Some] .
        with frame_runTask [of ?w1 env a task] f1
        have "frame w (run env room (runTask env a task ?w1))"
          by (blast intro: frame_trans)
        then show ?thesis
          using \<open>inputWorkers w room = Some t\<close> pop Some by (simp add: run.simps [of env room w])
      qed
    qed
  qed
qed

lemma frame_fold_run: "frame w (fold (run env) rooms w)"
proof (induction rooms arbitrary: w)
  case Nil
  show ?case by simp
next
  case (Cons room rooms)
  show ?case
    using frame_trans [OF frame_run [of w env room] Cons [of "run env room w"]] by simp
qed

lemma frame_runGoroutines: "frame w (runGoroutines env w)"
proof -
  have "frame w (w\<lparr>goroutines := []\<rparr>)" by (simp add: frame_def)
  then show ?thesis
    unfolding runGoroutines_def by (rule frame_trans) (rule frame_fold_run)
qed

lemma frame_wgWait: "frame w (snd (wgWait env wg w))"
  by (simp add: wgWait_def Let_def frame_runGoroutines)

lemma frame_processEDUs: "frame w (processEDUs t w)"
  by (simp add: processEDUs_def frame_def)

lemma frame_processPDU: "frame w (snd (snd (processPDU env ctx t wg pdu l w)))"
  by (simp add: processPDU_def frame_def Let_def wgAdd_def
      split: sum.splits parse_error.splits option.splits)

lemma frame_processPDUs: "frame w (snd (snd (processPDUs env ctx t wg pdus l w)))"
proof (induction pdus arbitrary: l w)
  case Nil
  show ?case by simp
next
  case (Cons pdu pdus)
  obtain r l' w' where p: "processPDU env ctx t wg pdu l w = (r, l', w')"
    by (cases "processPDU env ctx t wg pdu l w") auto
  have f: "frame w w'"
    using frame_processPDU [of w env ctx t wg pdu l] p by simp
  show ?case
  proof (cases r)
    case None
    with p f Cons [of w' l'] show ?thesis
      by (auto intro: frame_trans)
  next
    case (Some res)
    with p f show ?thesis by simp
  qed
qed

lemma frame_processTransaction: "frame w (snd (processTransaction env ctx t w))"
proof -
  let ?w = "w\<lparr>wgHeap := (wgHeap w)(nextAddr w \<mapsto> 0), nextAddr := Suc (nextAddr w)\<rparr>"
  let ?l = "\<lparr>l_results = Map.empty, l_tasks = []\<rparr>"
  obtain r l w1 where p: "processPDUs env ctx t (nextAddr w) (PDUs t) ?l ?w = (r, l, w1)"
    by (cases "processPDUs env ctx t (nextAddr w) (PDUs t) ?l ?w") auto
  have f0: "frame w ?w" by (simp add: frame_def)
  have f1: "frame ?w w1"
    using frame_processPDUs [of ?w env ctx t "nextAddr w" "PDUs t" ?l] p by simp
  have f01: "frame w w1" using f0 f1 by (rule frame_trans)
  show ?thesis
  proof (cases r)
    case (Some res)
    with p f01 show ?thesis by (simp add: processTransaction_def Let_def)
  next
    case None
    obtain b w2 where wt: "wgWait env (nextAddr w) (processEDUs t w1) = (b, w2)"
      by (cases "wgWait env (nextAddr w) (processEDUs t w1)") auto
    have "frame w1 w2"
      using frame_trans [OF frame_processEDUs [of w1 t]
          frame_wgWait [of "processEDUs t w1" env "nextAddr w"]] wt by simp
    with f01 have "frame w w2" by (rule frame_trans)
    with p None wt show ?thesis
      by (cases b) (simp_all add: processTransaction_def Let_def)
  qed
qed

lemma frame_leaderBody: "frame w (snd (leaderBody env th w))"
proof (cases "unmarshalTxn env (reqContent th)")
  case (Inl err)
  then show ?thesis by (simp add: leaderBody_def)
next
  case (Inr pe)
  obtain pdus edus where pe: "pe = (pdus, edus)" by (cases pe) auto
  let ?t = "\<lparr>PDUs = pdus, EDUs = edus, Origin = reqOrigin th, TransactionID = txnID th,
             Destination = cfgServerName th, work = []\<rparr>"
  show ?thesis
    using Inr pe frame_processTransaction [of w env Background ?t]
    by (auto simp: leaderBody_def Let_def split: prod.splits option.splits sum.splits)
qed

section \<open>The transaction pipeline\<close>

definition badJSONResponse :: response where
  "badJSONResponse = \<lparr>Code = 400, JSON = MatrixError ''M_BAD_JSON'' ''PDU contains bad JSON''\<rparr>"

text \<open>
  What the first three steps of an iteration make of a PDU: the parsed event and the
  room version it was parsed under, or \<open>None\<close> when the room ID cannot be read, the
  room version is not known, or the event does not parse.
\<close>

definition parsedEvent :: "env \<Rightarrow> Context \<Rightarrow> RawMessage \<Rightarrow> (Event \<times> RoomVersion) option" where
  "parsedEvent env ctx pdu =
     (case unmarshalHeader env pdu of
        Inl err \<Rightarrow> None
      | Inr roomID \<Rightarrow>
          (case QueryRoomVersionForRoom env ctx roomID of
             Inl err \<Rightarrow> None
           | Inr roomVersion \<Rightarrow>
               (case NewEventFromUntrustedJSON env pdu roomVersion of
                  Inl err \<Rightarrow> None
                | Inr event \<Rightarrow> Some (event, roomVersion))))"

text \<open>A PDU whose parse, under the room version looked up for it, is a bad-JSON error.\<close>

definition isBadJSON :: "env \<Rightarrow> Context \<Rightarrow> RawMessage \<Rightarrow> bool" where
  "isBadJSON env ctx pdu =
     (case unmarshalHeader env pdu of
        Inl err \<Rightarrow> False
      | Inr roomID \<Rightarrow>
          (case QueryRoomVersionForRoom env ctx roomID of
             Inl err \<Rightarrow> False
           | Inr roomVersion \<Rightarrow>
               (case NewEventFromUntrustedJSON env pdu roomVersion of
                  Inl (BadJSONError m) \<Rightarrow> True
                | _ \<Rightarrow> False)))"

lemma processPDU_Some:
  "fst (processPDU env ctx t wg pdu l w) = Some r \<longleftrightarrow> isBadJSON env ctx pdu \<and> r = badJSONResponse"
  by (auto simp: processPDU_def isBadJSON_def badJSONResponse_def BadJSON_def Let_def
      split: sum.splits parse_error.splits option.splits)

lemma processPDU_bad:
  "isBadJSON env ctx pdu \<Longrightarrow>
     processPDU env ctx t wg pdu l w =
       (Some badJSONResponse, l, w\<lparr>pduCountTotal := Inc ''total'' (pduCountTotal w)\<rparr>)"
  by (auto simp: processPDU_def isBadJSON_def badJSONResponse_def BadJSON_def Let_def
      split: sum.splits parse_error.splits option.splits)

lemma processPDUs_Some:
  "fst (processPDUs env ctx t wg pdus l w) = Some r \<Longrightarrow> r = badJSONResponse"
proof (induction pdus arbitrary: l w)
  case Nil
  then show ?case by simp
next
  case (Cons pdu pdus)
  obtain r' l' w' where p: "processPDU env ctx t wg pdu l w = (r', l', w')"
    by (cases "processPDU env ctx t wg pdu l w") auto
  show ?case
  proof (cases r')
    case None
    with p Cons.prems have "fst (processPDUs env ctx t wg pdus l' w') = Some r" by simp
    then show ?thesis by (rule Cons.IH)
  next
    case (Some r'')
    with p Cons.prems have "r'' = r" by simp
    with Some p processPDU_Some [of env ctx t wg pdu l w r] show ?thesis by simp
  qed
qed

lemma processPDUs_bad:
  "\<exists>pdu \<in> set pdus. isBadJSON env ctx pdu \<Longrightarrow>
     fst (processPDUs env ctx t wg pdus l w) = Some badJSONResponse"
proof (induction pdus arbitrary: l w)
  case Nil
  then show ?case by simp
next
  case (Cons pdu pdus)
  obtain r' l' w' where p: "processPDU env ctx t wg pdu l w = (r', l', w')"
    by (cases "processPDU env ctx t wg pdu l w") auto
  show ?case
  proof (cases r')
    case (Some r'')
    with p processPDU_Some [of env ctx t wg pdu l w r''] show ?thesis by simp
  next
    case None
    with p processPDU_Some [of env ctx t wg pdu l w badJSONResponse]
    have "\<not> isBadJSON env ctx pdu" by auto
    with Cons.prems have "\<exists>pdu \<in> set pdus. isBadJSON env ctx pdu" by auto
    then have "fst (processPDUs env ctx t wg pdus l' w') = Some badJSONResponse"
      by (rule Cons.IH)
    with p None show ?thesis by simp
  qed
qed

lemma processPDUs_None:
  "\<forall>pdu \<in> set pdus. \<not> isBadJSON env ctx pdu \<Longrightarrow> fst (processPDUs env ctx t wg pdus l w) = None"
proof (induction pdus arbitrary: l w)
  case Nil
  then show ?case by simp
next
  case (Cons pdu pdus)
  obtain r' l' w' where p: "processPDU env ctx t wg pdu l w = (r', l', w')"
    by (cases "processPDU env ctx t wg pdu l w") auto
  from Cons.prems have "\<not> isBadJSON env ctx pdu" by simp
  with p processPDU_Some [of env ctx t wg pdu l w] have "r' = None"
    by (cases r') auto
  with p Cons show ?case by simp
qed

lemma processTransaction_Inl:
  "fst (processTransaction env ctx t w) = Some (Inl r) \<Longrightarrow> r = badJSONResponse"
proof -
  assume a: "fst (processTransaction env ctx t w) = Some (Inl r)"
  let ?w = "w\<lparr>wgHeap := (wgHeap w)(nextAddr w \<mapsto> 0), nextAddr := Suc (nextAddr w)\<rparr>"
  let ?l = "\<lparr>l_results = Map.empty, l_tasks = []\<rparr>"
  obtain r' l w1 where p: "processPDUs env ctx t (nextAddr w) (PDUs t) ?l ?w = (r', l, w1)"
    by (cases "processPDUs env ctx t (nextAddr w) (PDUs t) ?l ?w") auto
  show ?thesis
  proof (cases r')
    case (Some r'')
    with p a have "r'' = r" by (simp add: processTransaction_def Let_def)
    with Some p processPDUs_Some [of env ctx t "nextAddr w" "PDUs t" ?l ?w r] show ?thesis
      by simp
  next
    case None
    with p a show ?thesis
      by (simp add: processTransaction_def Let_def split: prod.splits bool.splits)
  qed
qed

text \<open>
  C1. If some PDU of the transaction, parsed under the room version the roomserver
  reports for its room, fails with a bad-JSON error, \<open>processTransaction\<close> returns the
  response 400 with errcode \<open>M_BAD_JSON\<close> and error \<open>PDU contains bad JSON\<close>,
  whatever that room version is.
\<close>

theorem processTransaction_bad_json_aborts:
  assumes "pdu \<in> set (PDUs t)"
    and "unmarshalHeader env pdu = Inr roomID"
    and "QueryRoomVersionForRoom env ctx roomID = Inr roomVersion"
    and "NewEventFromUntrustedJSON env pdu roomVersion = Inl (BadJSONError m)"
  shows "fst (processTransaction env ctx t w) =
           Some (Inl \<lparr>Code = 400, JSON = MatrixError ''M_BAD_JSON'' ''PDU contains bad JSON''\<rparr>)"
proof -
  have "isBadJSON env ctx pdu"
    using assms(2-4) by (simp add: isBadJSON_def)
  with assms(1) have bad: "\<exists>pdu \<in> set (PDUs t). isBadJSON env ctx pdu" by blast
  let ?w = "w\<lparr>wgHeap := (wgHeap w)(nextAddr w \<mapsto> 0), nextAddr := Suc (nextAddr w)\<rparr>"
  let ?l = "\<lparr>l_results = Map.empty, l_tasks = []\<rparr>"
  obtain r' l w1 where p: "processPDUs env ctx t (nextAddr w) (PDUs t) ?l ?w = (r', l, w1)"
    by (cases "processPDUs env ctx t (nextAddr w) (PDUs t) ?l ?w") auto
  have "fst (processPDUs env ctx t (nextAddr w) (PDUs t) ?l ?w) = Some badJSONResponse"
    using bad by (rule processPDUs_bad)
  with p have "r' = Some badJSONResponse" by simp
  with p show ?thesis
    by (simp add: processTransaction_def Let_def badJSONResponse_def)
qed

theorem processTransaction_bad_json_aborts_witness:
  "fst (processTransaction exampleEnv Background (exampleTxn [''A'', ''X'', ''B'']) idleWorld) =
     Some (Inl \<lparr>Code = 400, JSON = MatrixError ''M_BAD_JSON'' ''PDU contains bad JSON''\<rparr>)"
  using processTransaction_bad_json_aborts
    [of "''X''" "exampleTxn [''A'', ''X'', ''B'']" exampleEnv "''!r''" Background "''6''"
        "''value is outside of safe range''" idleWorld]
  by (simp add: exampleEnv_def exampleTxn_def)

section \<open>One invocation of Send as the leader\<close>

text \<open>
  The state a leader leaves when it returns: its registry entry deleted, its channel
  closed, the channel's buffer holding what it sent.
\<close>

definition leaderStart :: "invocation \<Rightarrow> world \<Rightarrow> world" where
  "leaderStart th w =
     w\<lparr>chans := (chans w)(nextAddr w \<mapsto> makeChan 1), nextAddr := Suc (nextAddr w),
       inFlightTxnsPerOrigin :=
         (inFlightTxnsPerOrigin w)(txnIndex (reqOrigin th) (txnID th) \<mapsto> nextAddr w)\<rparr>"

definition leaderEnd :: "invocation \<Rightarrow> nat \<Rightarrow> response list \<Rightarrow> world \<Rightarrow> world" where
  "leaderEnd th ch sent w =
     w\<lparr>inFlightTxnsPerOrigin :=
         (inFlightTxnsPerOrigin w)(txnIndex (reqOrigin th) (txnID th) := None),
       chans := (chans w)(ch \<mapsto> \<lparr>ch_buf = sent, ch_cap = 1, ch_closed = True\<rparr>)\<rparr>"

lemma leaderBody_at [simp]: "leaderBody env (th\<lparr>at := p\<rparr>) w = leaderBody env th w"
  by (simp add: leaderBody_def Let_def split: sum.splits prod.splits)

lemma chans_leaderBody: "chans (snd (leaderBody env th w)) = chans w"
  using frame_leaderBody [of w env th] by (simp add: frame_def)

lemma Send_leader:
  assumes "inFlightTxnsPerOrigin w (txnIndex (reqOrigin th) (txnID th)) = None"
  shows "Send env th w =
           (case leaderBody env th (leaderStart th w) of
              (None, w') \<Rightarrow> (None, w')
            | (Some (Inl res), w') \<Rightarrow> (Some res, leaderEnd th (nextAddr w) [] w')
            | (Some (Inr res), w') \<Rightarrow> (Some res, leaderEnd th (nextAddr w) [res] w'))"
proof -
  let ?index = "txnIndex (reqOrigin th) (txnID th)"
  let ?ds = "[DeferDelete ?index, DeferClose (nextAddr w)]"
  let ?th1 = "th\<lparr>at := AtBody (nextAddr w) ?ds\<rparr>"
  obtain r w2 where lb: "leaderBody env th (leaderStart th w) = (r, w2)"
    by (cases "leaderBody env th (leaderStart th w)") auto
  have ch: "chans w2 (nextAddr w) = Some (makeChan 1)"
    using chans_leaderBody [of env th "leaderStart th w"] lb by (simp add: leaderStart_def)
  have s1: "SendStep env True (th\<lparr>at := AtLoadOrStore\<rparr>) w = Some (?th1, leaderStart th w)"
    using assms by (simp add: SendStep_def deferCall_def leaderStart_def Let_def)
  have n: "(8::nat) = Suc (Suc (Suc (Suc (Suc (Suc (Suc (Suc 0)))))))" by simp
  show ?thesis
  proof (cases r)
    case None
    then show ?thesis
      using s1 lb by (simp add: Send_def n SendStep_def)
  next
    case (Some rr)
    show ?thesis
    proof (cases rr)
      case (Inl res)
      then show ?thesis
        using s1 lb Some ch
        by (simp add: Send_def n SendStep_def runDeferred_def makeChan_def leaderEnd_def)
    next
      case (Inr res)
      then show ?thesis
        using s1 lb Some ch
        by (simp add: Send_def n SendStep_def runDeferred_def makeChan_def leaderEnd_def)
    qed
  qed
qed

definition tooLargeResponse :: response where
  "tooLargeResponse = \<lparr>Code = 400, JSON = MatrixError ''M_BAD_JSON'' ''max 50 pdus / 100 edus''\<rparr>"

lemma leaderBody_too_large:
  assumes "unmarshalTxn env (reqContent th) = Inr (pdus, edus)"
  shows "fst (leaderBody env th w) = Some (Inl tooLargeResponse) \<longleftrightarrow>
           50 < length pdus \<or> 100 < length edus"
proof (cases "50 < length pdus \<or> 100 < length edus")
  case True
  with assms show ?thesis
    by (simp add: leaderBody_def tooLargeResponse_def BadJSON_def StatusBadRequest_def)
next
  case False
  let ?t = "\<lparr>PDUs = pdus, EDUs = edus, Origin = reqOrigin th, TransactionID = txnID th,
             Destination = cfgServerName th, work = []\<rparr>"
  obtain r w' where pt: "processTransaction env Background ?t w = (r, w')"
    by (cases "processTransaction env Background ?t w") auto
  have "r \<noteq> Some (Inl tooLargeResponse)"
    using processTransaction_Inl [of env Background ?t w tooLargeResponse] pt
    by (auto simp: tooLargeResponse_def badJSONResponse_def)
  then have "fst (leaderBody env th w) \<noteq> Some (Inl tooLargeResponse)"
    using assms False pt
    by (auto simp: leaderBody_def Let_def split: option.splits sum.splits)
  with False show ?thesis by simp
qed

text \<open>
  C4. A leader whose envelope decodes to \<open>pdus\<close> and \<open>edus\<close> returns status 400
  with errcode \<open>M_BAD_JSON\<close> and error \<open>max 50 pdus / 100 edus\<close> exactly when there are more
  than 50 PDUs or more than 100 EDUs. (Only the leader decodes the envelope.)
\<close>

theorem Send_size_limit:
  assumes "inFlightTxnsPerOrigin w (txnIndex (reqOrigin th) (txnID th)) = None"
    and "unmarshalTxn env (reqContent th) = Inr (pdus, edus)"
  shows "fst (Send env th w) =
           Some \<lparr>Code = 400, JSON = MatrixError ''M_BAD_JSON'' ''max 50 pdus / 100 edus''\<rparr>
         \<longleftrightarrow> 50 < length pdus \<or> 100 < length edus"
proof -
  obtain r w2 where lb: "leaderBody env th (leaderStart th w) = (r, w2)"
    by (cases "leaderBody env th (leaderStart th w)") auto
  have res200: "res \<noteq> tooLargeResponse" if "r = Some (Inr res)" for res
    using that lb assms(2)
    by (auto simp: leaderBody_def Let_def tooLargeResponse_def status_defs
        split: if_splits option.splits sum.splits prod.splits)
  have "fst (Send env th w) = Some tooLargeResponse \<longleftrightarrow> r = Some (Inl tooLargeResponse)"
    using Send_leader [OF assms(1), of env] lb res200
    by (auto split: option.splits sum.splits)
  moreover have "r = Some (Inl tooLargeResponse) \<longleftrightarrow> 50 < length pdus \<or> 100 < length edus"
    using leaderBody_too_large [OF assms(2), of "leaderStart th w"] lb by simp
  ultimately show ?thesis by (simp add: tooLargeResponse_def)
qed

theorem Send_size_limit_witness:
  "fst (Send exampleEnv (exampleSend 0 ''51 pdus'') idleWorld) =
     Some \<lparr>Code = 400, JSON = MatrixError ''M_BAD_JSON'' ''max 50 pdus / 100 edus''\<rparr>
   \<and> fst (Send exampleEnv (exampleSend 0 ''101 edus'') idleWorld) =
     Some \<lparr>Code = 400, JSON = MatrixError ''M_BAD_JSON'' ''max 50 pdus / 100 edus''\<rparr>
   \<and> fst (Send exampleEnv (exampleSend 0 ''50 pdus 100 edus'') idleWorld) \<noteq>
     Some \<lparr>Code = 400, JSON = MatrixError ''M_BAD_JSON'' ''max 50 pdus / 100 edus''\<rparr>"
  using Send_size_limit [of idleWorld "exampleSend 0 ''51 pdus''" exampleEnv "replicate 51 ''A''" "[]"]
    Send_size_limit [of idleWorld "exampleSend 0 ''101 edus''" exampleEnv "[]"
      "replicate 101 \<lparr>EDUType = ''m.typing'', EDUContent = ''{}''\<rparr>"]
    Send_size_limit [of idleWorld "exampleSend 0 ''50 pdus 100 edus''" exampleEnv "replicate 50 ''A''"
      "replicate 100 \<lparr>EDUType = ''m.typing'', EDUContent = ''{}''\<rparr>"]
  by (simp add: exampleEnv_def exampleSend_def idleWorld_def)

section \<open>How the leader finishes\<close>

text \<open>
  \<open>deleteThenClose env th w n res\<close>: after \<open>n\<close> steps the invocation is about to
  return \<open>res\<close> with both deferred calls pending, its registry entry in place and
  its channel open; the next step deletes the registry entry while the channel is still
  open; the step after closes the channel; then the invocation has returned \<open>res\<close>.
\<close>

definition deleteThenClose :: "env \<Rightarrow> invocation \<Rightarrow> world \<Rightarrow> nat \<Rightarrow> response \<Rightarrow> bool" where
  "deleteThenClose env th w n res =
     (let index = txnIndex (reqOrigin th) (txnID th);
          ch = nextAddr w;
          s = (\<lambda>k. SendSteps env k (th\<lparr>at := AtLoadOrStore\<rparr>) w)
      in at (fst (s n)) = AtReturn [DeferDelete index, DeferClose ch] res
       \<and> inFlightTxnsPerOrigin (snd (s n)) index = Some ch
       \<and> map_option ch_closed (chans (snd (s n)) ch) = Some False
       \<and> at (fst (s (n + 1))) = AtReturn [DeferClose ch] res
       \<and> inFlightTxnsPerOrigin (snd (s (n + 1))) index = None
       \<and> map_option ch_closed (chans (snd (s (n + 1))) ch) = Some False
       \<and> at (fst (s (n + 2))) = AtReturn [] res
       \<and> inFlightTxnsPerOrigin (snd (s (n + 2))) index = None
       \<and> map_option ch_closed (chans (snd (s (n + 2))) ch) = Some True
       \<and> at (fst (s (n + 3))) = Returned res)"

text \<open>
  C7 as stated fails: here the leader of an empty transaction has sent its response;
  after its fourth step its registry entry is gone and its channel is still open. The
  channel is closed by the fifth step.
\<close>

theorem leader_close_before_delete_counterexample:
  "inFlightTxnsPerOrigin
     (snd (exec exampleEnv (replicate 3 (Step 0 True)) ([exampleSend 0 []], idleWorld)))
     (txnIndex ''a.example'' ''t1'') = Some 0
   \<and> inFlightTxnsPerOrigin
     (snd (exec exampleEnv (replicate 4 (Step 0 True)) ([exampleSend 0 []], idleWorld)))
     (txnIndex ''a.example'' ''t1'') = None
   \<and> map_option ch_closed
     (chans (snd (exec exampleEnv (replicate 4 (Step 0 True)) ([exampleSend 0 []], idleWorld))) 0)
     = Some False
   \<and> map_option ch_closed
     (chans (snd (exec exampleEnv (replicate 5 (Step 0 True)) ([exampleSend 0 []], idleWorld))) 0)
     = Some True"
  by (simp add: exec_def eval_nat_numeral SendStep_def exampleSend_def exampleEnv_def
      idleWorld_def txnIndex_def makeChan_def deferCall_def leaderBody_def
      processTransaction_def processEDUs_def wgWait_def runDeferred_def Let_def status_defs)

text \<open>
  C7, amended. Whenever the leader finishes, whether it aborted with an error response
  (after two steps) or sent its response on the channel (after three), it first
  deletes its registry entry, the channel still open, and only then closes the
  channel: the deferred calls run in the reverse of the order they were registered in.
\<close>

theorem leader_deletes_then_closes:
  assumes "inFlightTxnsPerOrigin w (txnIndex (reqOrigin th) (txnID th)) = None"
    and "fst (leaderBody env th (leaderStart th w)) = Some r"
  shows "case r of
           Inl res \<Rightarrow> deleteThenClose env th w 2 res
         | Inr res \<Rightarrow>
             deleteThenClose env th w 3 res
             \<and> map_option ch_buf
                 (chans (snd (SendSteps env 3 (th\<lparr>at := AtLoadOrStore\<rparr>) w)) (nextAddr w))
               = Some [res]"
proof -
  let ?index = "txnIndex (reqOrigin th) (txnID th)"
  let ?ds = "[DeferDelete ?index, DeferClose (nextAddr w)]"
  let ?th1 = "th\<lparr>at := AtBody (nextAddr w) ?ds\<rparr>"
  obtain w2 where lb: "leaderBody env th (leaderStart th w) = (Some r, w2)"
    using assms(2) by (cases "leaderBody env th (leaderStart th w)") auto
  have fr: "frame (leaderStart th w) w2"
    using frame_leaderBody [of "leaderStart th w" env th] lb by simp
  have ch: "chans w2 (nextAddr w) = Some (makeChan 1)"
    using fr by (simp add: frame_def leaderStart_def)
  have reg: "inFlightTxnsPerOrigin w2 ?index = Some (nextAddr w)"
    using fr by (simp add: frame_def leaderStart_def)
  have s1: "SendStep env True (th\<lparr>at := AtLoadOrStore\<rparr>) w = Some (?th1, leaderStart th w)"
    using assms(1) by (simp add: SendStep_def deferCall_def leaderStart_def Let_def)
  show ?thesis
  proof (cases r)
    case (Inl res)
    then show ?thesis
      using s1 lb ch reg
      by (simp add: deleteThenClose_def eval_nat_numeral SendStep_def runDeferred_def makeChan_def)
  next
    case (Inr res)
    then show ?thesis
      using s1 lb ch reg
      by (simp add: deleteThenClose_def eval_nat_numeral SendStep_def runDeferred_def makeChan_def)
  qed
qed

theorem leader_deletes_then_closes_witness:
  "deleteThenClose exampleEnv (exampleSend 0 ''not json'') idleWorld 2
     \<lparr>Code = 400,
      JSON = MatrixError ''M_NOT_JSON''
        ''The request body could not be decoded into valid JSON. invalid character''\<rparr>"
  using leader_deletes_then_closes
    [of idleWorld "exampleSend 0 ''not json''" exampleEnv
        "Inl \<lparr>Code = 400,
              JSON = MatrixError ''M_NOT_JSON''
                ''The request body could not be decoded into valid JSON. invalid character''\<rparr>"]
  by (simp add: idleWorld_def exampleSend_def exampleEnv_def leaderBody_def leaderStart_def
      NotJSON_def status_defs)

section \<open>The follower\<close>

text \<open>
  C2. An invocation that finds an entry for its key in the registry becomes a follower
  of the channel stored there, under a context that is done when its own request is
  cancelled or five minutes after the lookup (first conjunct). In its \<^verbatim>\<open>select\<close>,
  with \<open>t0\<close> the time of the lookup: it waits while the context is not done and
  the channel has nothing to receive; when the context is done it returns 408 (if the
  channel is ready too, either case may be picked); when it receives a value with a
  non-zero code it returns that value; when it receives the zero value (the channel
  closed and empty, response code 0) it returns 202. Neither step changes the registry,
  the workers, the task heap, the counters or what the roomserver was given: a follower
  deletes no entry and processes nothing.
\<close>

theorem follower_contract:
  assumes "inFlightTxnsPerOrigin w (txnIndex (reqOrigin th) (txnID th)) = Some ch"
    and "ctx = WithDeadline (RequestContext (httpReq th)) (t0 + 5 * Minute)"
    and "fol = th\<lparr>at := AtSelect ch ctx\<rparr>"
    and "timeout = (httpReq th \<in> cancelled w' \<or> t0 + 5 * Minute \<le> now w')"
  shows "SendStep env pick (th\<lparr>at := AtLoadOrStore\<rparr>) w =
           Some (th\<lparr>at := AtSelect ch (WithTimeout (RequestContext (httpReq th)) (5 * Minute) (now w))\<rparr>,
                 w\<lparr>chans := (chans w)(nextAddr w \<mapsto> makeChan 1), nextAddr := Suc (nextAddr w)\<rparr>)
         \<and> WithTimeout (RequestContext (httpReq th)) (5 * Minute) (now w) =
             WithDeadline (RequestContext (httpReq th)) (now w + 5 * Minute)
         \<and> ctxDone (cancelled w') (now w') ctx = timeout
         \<and> (\<not> timeout \<and> \<not> chanReady w' ch \<longrightarrow> SendStep env pick fol w' = None)
         \<and> (timeout \<and> (\<not> chanReady w' ch \<or> pick) \<longrightarrow>
               SendStep env pick fol w' =
                 Some (fol\<lparr>at := Returned \<lparr>Code = 408, JSON = JSONNil\<rparr>\<rparr>, w'))
         \<and> (chanReady w' ch \<and> (\<not> timeout \<or> \<not> pick) \<longrightarrow>
               (\<exists>c. chans w' ch = Some c \<and>
                  (case ch_buf c of
                     v # rest \<Rightarrow>
                       SendStep env pick fol w' =
                         Some (fol\<lparr>at := Returned (if Code v = 0 then \<lparr>Code = 202, JSON = JSONNil\<rparr>
                                                     else v)\<rparr>,
                               w'\<lparr>chans := (chans w')(ch \<mapsto> c\<lparr>ch_buf := rest\<rparr>)\<rparr>)
                   | [] \<Rightarrow>
                       ch_closed c \<and>
                       SendStep env pick fol w' =
                         Some (fol\<lparr>at := Returned \<lparr>Code = 202, JSON = JSONNil\<rparr>\<rparr>, w'))))
         \<and> (\<forall>fol' w''. SendStep env pick fol w' = Some (fol', w'') \<longrightarrow>
               (\<exists>res. at fol' = Returned res)
               \<and> inFlightTxnsPerOrigin w'' = inFlightTxnsPerOrigin w'
               \<and> inputWorkers w'' = inputWorkers w' \<and> taskHeap w'' = taskHeap w'
               \<and> goroutines w'' = goroutines w' \<and> pduCountTotal w'' = pduCountTotal w'
               \<and> roomserverInput w'' = roomserverInput w')"
proof (intro conjI)
  show "SendStep env pick (th\<lparr>at := AtLoadOrStore\<rparr>) w =
          Some (th\<lparr>at := AtSelect ch (WithTimeout (RequestContext (httpReq th)) (5 * Minute) (now w))\<rparr>,
                w\<lparr>chans := (chans w)(nextAddr w \<mapsto> makeChan 1), nextAddr := Suc (nextAddr w)\<rparr>)"
    using assms(1) by (simp add: SendStep_def Let_def)
  show "WithTimeout (RequestContext (httpReq th)) (5 * Minute) (now w) =
          WithDeadline (RequestContext (httpReq th)) (now w + 5 * Minute)"
    by (simp add: WithTimeout_def)
  show dn: "ctxDone (cancelled w') (now w') ctx = timeout"
    using assms(2,4) by auto
  show "\<not> timeout \<and> \<not> chanReady w' ch \<longrightarrow> SendStep env pick fol w' = None"
    using dn assms(3) by (simp add: SendStep_def followerSelect_def Let_def)
  show "timeout \<and> (\<not> chanReady w' ch \<or> pick) \<longrightarrow>
          SendStep env pick fol w' = Some (fol\<lparr>at := Returned \<lparr>Code = 408, JSON = JSONNil\<rparr>\<rparr>, w')"
    using dn assms(3) by (auto simp: SendStep_def followerSelect_def Let_def status_defs)
  show "chanReady w' ch \<and> (\<not> timeout \<or> \<not> pick) \<longrightarrow>
          (\<exists>c. chans w' ch = Some c \<and>
             (case ch_buf c of
                v # rest \<Rightarrow>
                  SendStep env pick fol w' =
                    Some (fol\<lparr>at := Returned (if Code v = 0 then \<lparr>Code = 202, JSON = JSONNil\<rparr>
                                                else v)\<rparr>,
                          w'\<lparr>chans := (chans w')(ch \<mapsto> c\<lparr>ch_buf := rest\<rparr>)\<rparr>)
              | [] \<Rightarrow>
                  ch_closed c \<and>
                  SendStep env pick fol w' =
                    Some (fol\<lparr>at := Returned \<lparr>Code = 202, JSON = JSONNil\<rparr>\<rparr>, w')))"
    using dn assms(3)
    by (auto simp: SendStep_def followerSelect_def chanReady_def chanRecv_def Let_def status_defs
        split: option.splits list.splits)
  show "\<forall>fol' w''. SendStep env pick fol w' = Some (fol', w'') \<longrightarrow>
          (\<exists>res. at fol' = Returned res)
          \<and> inFlightTxnsPerOrigin w'' = inFlightTxnsPerOrigin w'
          \<and> inputWorkers w'' = inputWorkers w' \<and> taskHeap w'' = taskHeap w'
          \<and> goroutines w'' = goroutines w' \<and> pduCountTotal w'' = pduCountTotal w'
          \<and> roomserverInput w'' = roomserverInput w'"
    using assms(3)
    by (auto simp: SendStep_def followerSelect_def chanRecv_def Let_def
        split: option.splits list.splits if_splits)
qed

theorem follower_contract_witness:
  "SendStep exampleEnv True
     ((exampleSend 1 [])\<lparr>at := AtSelect 0 (WithDeadline (RequestContext 1) (0 + 5 * Minute))\<rparr>)
     (attachedWorld (makeChan 1) 0 {}) = None
   \<and> map_option (at \<circ> fst) (SendStep exampleEnv True
     ((exampleSend 1 [])\<lparr>at := AtSelect 0 (WithDeadline (RequestContext 1) (0 + 5 * Minute))\<rparr>)
     (attachedWorld (makeChan 1) (5 * Minute) {})) = Some (Returned \<lparr>Code = 408, JSON = JSONNil\<rparr>)
   \<and> map_option (at \<circ> fst) (SendStep exampleEnv True
     ((exampleSend 1 [])\<lparr>at := AtSelect 0 (WithDeadline (RequestContext 1) (0 + 5 * Minute))\<rparr>)
     (attachedWorld (makeChan 1) 0 {1})) = Some (Returned \<lparr>Code = 408, JSON = JSONNil\<rparr>)
   \<and> map_option (at \<circ> fst) (SendStep exampleEnv True
     ((exampleSend 1 [])\<lparr>at := AtSelect 0 (WithDeadline (RequestContext 1) (0 + 5 * Minute))\<rparr>)
     (attachedWorld \<lparr>ch_buf = [emptyResponse], ch_cap = 1, ch_closed = True\<rparr> 0 {}))
       = Some (Returned emptyResponse)
   \<and> map_option (at \<circ> fst) (SendStep exampleEnv True
     ((exampleSend 1 [])\<lparr>at := AtSelect 0 (WithDeadline (RequestContext 1) (0 + 5 * Minute))\<rparr>)
     (attachedWorld \<lparr>ch_buf = [], ch_cap = 1, ch_closed = True\<rparr> 0 {}))
       = Some (Returned \<lparr>Code = 202, JSON = JSONNil\<rparr>)"
  using follower_contract [where w = "attachedWorld (makeChan 1) 0 {}" and th = "exampleSend 1 []"
      and ch = 0 and ?t0.0 = 0 and w' = "attachedWorld (makeChan 1) 0 {}" and env = exampleEnv
      and pick = True, OF _ refl refl refl, THEN conjunct2, THEN conjunct2, THEN conjunct2, THEN conjunct1]
    follower_contract [where w = "attachedWorld (makeChan 1) 0 {}" and th = "exampleSend 1 []"
      and ch = 0 and ?t0.0 = 0 and w' = "attachedWorld (makeChan 1) (5 * Minute) {}"
      and env = exampleEnv and pick = True, OF _ refl refl refl, THEN conjunct2, THEN conjunct2, THEN conjunct2, THEN conjunct2, THEN conjunct1]
    follower_contract [where w = "attachedWorld (makeChan 1) 0 {}" and th = "exampleSend 1 []"
      and ch = 0 and ?t0.0 = 0 and w' = "attachedWorld (makeChan 1) 0 {1}" and env = exampleEnv
      and pick = True, OF _ refl refl refl, THEN conjunct2, THEN conjunct2, THEN conjunct2, THEN conjunct2, THEN conjunct1]
    follower_contract [where w = "attachedWorld (makeChan 1) 0 {}" and th = "exampleSend 1 []"
      and ch = 0 and ?t0.0 = 0
      and w' = "attachedWorld \<lparr>ch_buf = [emptyResponse], ch_cap = 1, ch_closed = True\<rparr> 0 {}"
      and env = exampleEnv and pick = True, OF _ refl refl refl, THEN conjunct2, THEN conjunct2, THEN conjunct2, THEN conjunct2, THEN conjunct2, THEN conjunct1]
    follower_contract [where w = "attachedWorld (makeChan 1) 0 {}" and th = "exampleSend 1 []"
      and ch = 0 and ?t0.0 = 0
      and w' = "attachedWorld \<lparr>ch_buf = [], ch_cap = 1, ch_closed = True\<rparr> 0 {}"
      and env = exampleEnv and pick = True, OF _ refl refl refl, THEN conjunct2, THEN conjunct2, THEN conjunct2, THEN conjunct2, THEN conjunct2, THEN conjunct1]
  by (simp add: attachedWorld_def idleWorld_def exampleSend_def chanReady_def makeChan_def
      emptyResponse_def Minute_def Second_def)

section \<open>The room worker\<close>

text \<open>The state once the worker of \<open>room\<close> has taken the first task off its queue.\<close>

definition dequeued :: "string \<Rightarrow> inputWorker \<Rightarrow> nat list \<Rightarrow> world \<Rightarrow> world" where
  "dequeued room t rest w =
     w\<lparr>inputWorkers := (inputWorkers w)(room \<mapsto> t\<lparr>input := (input t)\<lparr>q_tasks := rest\<rparr>\<rparr>)\<rparr>"

lemma run_no_worker: "inputWorkers w room = None \<Longrightarrow> run env room w = w"
  by (simp add: run.simps [of env room w])

lemma run_empty:
  "inputWorkers w room = Some t \<Longrightarrow> q_tasks (input t) = [] \<Longrightarrow>
     run env room w = w\<lparr>inputWorkers := (inputWorkers w)(room \<mapsto> t\<lparr>running := False\<rparr>)\<rparr>"
  by (simp add: run.simps [of env room w] pop_def)

lemma run_nil_task:
  "inputWorkers w room = Some t \<Longrightarrow> q_tasks (input t) = a # rest \<Longrightarrow> taskHeap w a = None \<Longrightarrow>
     run env room w = run env room (dequeued room t rest w)"
  by (simp add: run.simps [of env room w] pop_def dequeued_def)

lemma run_task:
  "inputWorkers w room = Some t \<Longrightarrow> q_tasks (input t) = a # rest \<Longrightarrow> taskHeap w a = Some task \<Longrightarrow>
     run env room w = run env room (runTask env a task (dequeued room t rest w))"
  by (simp add: run.simps [of env room w] pop_def dequeued_def)

lemma run_induct [case_names no_worker empty nil_task task]:
  assumes "\<And>w. inputWorkers w room = None \<Longrightarrow> P w"
    and "\<And>w t. inputWorkers w room = Some t \<Longrightarrow> q_tasks (input t) = [] \<Longrightarrow> P w"
    and "\<And>w t a rest. inputWorkers w room = Some t \<Longrightarrow> q_tasks (input t) = a # rest \<Longrightarrow>
           taskHeap w a = None \<Longrightarrow> P (dequeued room t rest w) \<Longrightarrow> P w"
    and "\<And>w t a rest task. inputWorkers w room = Some t \<Longrightarrow> q_tasks (input t) = a # rest \<Longrightarrow>
           taskHeap w a = Some task \<Longrightarrow> P (runTask env a task (dequeued room t rest w)) \<Longrightarrow> P w"
  shows "P w"
proof (induction "case inputWorkers w room of None \<Rightarrow> 0 | Some t \<Rightarrow> length (q_tasks (input t))"
       arbitrary: w rule: less_induct)
  case less
  show ?case
  proof (cases "inputWorkers w room")
    case None
    then show ?thesis by (rule assms(1))
  next
    case (Some t)
    show ?thesis
    proof (cases "q_tasks (input t)")
      case Nil
      with Some show ?thesis by (rule assms(2))
    next
      case (Cons a rest)
      show ?thesis
      proof (cases "taskHeap w a")
        case None
        have "P (dequeued room t rest w)"
          using Some Cons by (intro less) (simp add: dequeued_def)
        with Some Cons None show ?thesis by (rule assms(3))
      next
        case (Some task)
        have "P (runTask env a task (dequeued room t rest w))"
          using \<open>inputWorkers w room = Some t\<close> Cons by (intro less) (simp add: dequeued_def)
        with \<open>inputWorkers w room = Some t\<close> Cons Some show ?thesis by (rule assms(4))
      qed
    qed
  qed
qed

text \<open>
  What the worker does with one task (the facts behind C8): if the task's context is
  done, the task ends with \<open>DeadlineExceeded\<close>, the \<open>expired\<close> counter goes up by
  one and the roomserver is given nothing; otherwise the event is handed to
  \<open>processEvent\<close>, and so to the roomserver.
\<close>

lemma runTask_expired:
  assumes "ctxDone (cancelled w) (now w) (task_ctx task)"
  shows "taskHeap (runTask env a task w) = (taskHeap w)(a \<mapsto> task\<lparr>task_err := Some DeadlineExceeded\<rparr>)"
    and "pduCountTotal (runTask env a task w) = Inc ''expired'' (pduCountTotal w)"
    and "roomserverInput (runTask env a task w) = roomserverInput w"
    and "processEventSummary (runTask env a task w) = processEventSummary w"
  using assms by (simp_all add: runTask_def wgDone_def setErr_def)

lemma runTask_processed:
  assumes "\<not> ctxDone (cancelled w) (now w) (task_ctx task)"
  shows "roomserverInput (runTask env a task w) =
           roomserverInput w @ [(task_event task, Origin (task_t task))]"
    and "pduCountTotal (runTask env a task w) ''expired'' = pduCountTotal w ''expired''"
    and "taskHeap (runTask env a task w) =
           (taskHeap w)(a \<mapsto> task\<lparr>task_err :=
              (case SendEvents env Background (task_event task) (Origin (task_t task)) of
                 Some (NotAllowed m) \<Rightarrow> None
               | e \<Rightarrow> e)\<rparr>)"
  using assms
  by (auto simp: runTask_def wgDone_def setErr_def processEvent_def Let_def Inc_def
      split: option.splits task_error.splits)

lemma wgHeap_runTask:
  "wgHeap (runTask env a task w) =
     (wgHeap w)(task_wg task \<mapsto> (case wgHeap w (task_wg task) of None \<Rightarrow> 0 | Some c \<Rightarrow> c - 1))"
  by (auto simp: runTask_def wgDone_def setErr_def processEvent_def Let_def
      split: option.splits task_error.splits)

text \<open>
  Running a worker changes tasks in their \<open>err\<close> field only, and gives the roomserver
  only events of tasks on the heap.
\<close>

definition noErr :: "inputTask \<Rightarrow> inputTask" where
  "noErr task = task\<lparr>task_err := None\<rparr>"

definition sameTasks :: "world \<Rightarrow> world \<Rightarrow> bool" where
  "sameTasks w w' \<longleftrightarrow> (\<forall>a. map_option noErr (taskHeap w' a) = map_option noErr (taskHeap w a))"

lemma sameTasks_refl [simp]: "sameTasks w w"
  by (simp add: sameTasks_def)

lemma sameTasks_trans: "sameTasks w w' \<Longrightarrow> sameTasks w' w'' \<Longrightarrow> sameTasks w w''"
  by (simp add: sameTasks_def)

lemma sameTasks_heap_eq: "taskHeap w' = taskHeap w \<Longrightarrow> sameTasks w w'"
  by (simp add: sameTasks_def)

lemma sameTasks_dequeued [simp]: "sameTasks w (dequeued room t rest w)"
  by (rule sameTasks_heap_eq) (simp add: dequeued_def)

lemma taskHeap_runTask:
  "\<exists>e. taskHeap (runTask env a task w) = (taskHeap w)(a \<mapsto> task\<lparr>task_err := e\<rparr>)"
  by (auto simp: runTask_def wgDone_def setErr_def processEvent_def Let_def
      split: option.splits task_error.splits)

lemma sameTasks_runTask: "taskHeap w a = Some task \<Longrightarrow> sameTasks w (runTask env a task w)"
proof -
  assume h: "taskHeap w a = Some task"
  obtain e where e: "taskHeap (runTask env a task w) = (taskHeap w)(a \<mapsto> task\<lparr>task_err := e\<rparr>)"
    using taskHeap_runTask by blast
  show ?thesis
    using h by (simp add: sameTasks_def e noErr_def)
qed

lemma sameTasks_run: "sameTasks w (run env room w)"
proof (induction w rule: run_induct [where room = room and env = env])
  case (no_worker w)
  then show ?case by (simp add: run_no_worker)
next
  case (empty w t)
  have "sameTasks w (w\<lparr>inputWorkers := (inputWorkers w)(room \<mapsto> t\<lparr>running := False\<rparr>)\<rparr>)"
    by (rule sameTasks_heap_eq) simp
  with empty show ?case by (simp add: run_empty)
next
  case (nil_task w t a rest)
  from sameTasks_trans [OF sameTasks_dequeued nil_task(4)] nil_task(1-3)
  show ?case by (simp add: run_nil_task)
next
  case (task w t a rest task)
  have "taskHeap (dequeued room t rest w) a = Some task"
    using task(3) by (simp add: dequeued_def)
  then have "sameTasks (dequeued room t rest w) (runTask env a task (dequeued room t rest w))"
    by (rule sameTasks_runTask)
  from sameTasks_trans [OF sameTasks_trans [OF sameTasks_dequeued this] task(4)] task(1-3)
  show ?case by (simp add: run_task)
qed

definition taskEvents :: "world \<Rightarrow> (HeaderedEvent \<times> ServerName) set" where
  "taskEvents w = {(task_event task, Origin (task_t task)) | a task. taskHeap w a = Some task}"

lemma taskEvents_noErr:
  "taskEvents w = {(task_event task, Origin (task_t task)) | a task. map_option noErr (taskHeap w a) = Some task}"
proof -
  have "(\<exists>a task. x = (task_event task, Origin (task_t task)) \<and> taskHeap w a = Some task) \<longleftrightarrow>
        (\<exists>a task. x = (task_event task, Origin (task_t task)) \<and> map_option noErr (taskHeap w a) = Some task)"
    for x
  proof
    assume "\<exists>a task. x = (task_event task, Origin (task_t task)) \<and> taskHeap w a = Some task"
    then obtain a task where "x = (task_event task, Origin (task_t task))" "taskHeap w a = Some task"
      by blast
    then have "x = (task_event (noErr task), Origin (task_t (noErr task)))
               \<and> map_option noErr (taskHeap w a) = Some (noErr task)"
      by (simp add: noErr_def)
    then show "\<exists>a task. x = (task_event task, Origin (task_t task)) \<and> map_option noErr (taskHeap w a) = Some task"
      by blast
  next
    assume "\<exists>a task. x = (task_event task, Origin (task_t task)) \<and> map_option noErr (taskHeap w a) = Some task"
    then obtain a task where x: "x = (task_event task, Origin (task_t task))"
      and m: "map_option noErr (taskHeap w a) = Some task"
      by blast
    from m obtain task0 where "taskHeap w a = Some task0" "task = noErr task0" by auto
    with x have "x = (task_event task0, Origin (task_t task0)) \<and> taskHeap w a = Some task0"
      by (simp add: noErr_def)
    then show "\<exists>a task. x = (task_event task, Origin (task_t task)) \<and> taskHeap w a = Some task"
      by blast
  qed
  then show ?thesis
    unfolding taskEvents_def by blast
qed

lemma sameTasks_taskEvents: "sameTasks w w' \<Longrightarrow> taskEvents w' = taskEvents w"
  by (simp add: taskEvents_noErr sameTasks_def)

text \<open>
  \<open>worked w w'\<close>: from \<open>w\<close> to \<open>w'\<close> tasks changed in their \<open>err\<close> field only, and
  the roomserver was given only events of tasks on the heap.
\<close>

definition worked :: "world \<Rightarrow> world \<Rightarrow> bool" where
  "worked w w' \<longleftrightarrow>
     sameTasks w w' \<and>
     (\<exists>xs. roomserverInput w' = roomserverInput w @ xs \<and> set xs \<subseteq> taskEvents w)"

lemma worked_refl [simp]: "worked w w"
  by (simp add: worked_def)

lemma worked_trans: "worked w w' \<Longrightarrow> worked w' w'' \<Longrightarrow> worked w w''"
proof -
  assume a: "worked w w'" and b: "worked w' w''"
  from a obtain xs where xs: "roomserverInput w' = roomserverInput w @ xs" "set xs \<subseteq> taskEvents w"
    and s1: "sameTasks w w'"
    by (auto simp: worked_def)
  from b obtain ys where ys: "roomserverInput w'' = roomserverInput w' @ ys" "set ys \<subseteq> taskEvents w'"
    and s2: "sameTasks w' w''"
    by (auto simp: worked_def)
  have "roomserverInput w'' = roomserverInput w @ (xs @ ys)"
    using xs ys by simp
  moreover have "set (xs @ ys) \<subseteq> taskEvents w"
    using xs ys sameTasks_taskEvents [OF s1] by simp
  ultimately show ?thesis
    using sameTasks_trans [OF s1 s2] unfolding worked_def by blast
qed

lemma worked_same: "taskHeap w' = taskHeap w \<Longrightarrow> roomserverInput w' = roomserverInput w \<Longrightarrow> worked w w'"
  by (simp add: worked_def sameTasks_heap_eq)

lemma roomserverInput_runTask:
  "roomserverInput (runTask env a task w) = roomserverInput w \<or>
   roomserverInput (runTask env a task w) = roomserverInput w @ [(task_event task, Origin (task_t task))]"
  by (auto simp: runTask_def wgDone_def setErr_def processEvent_def Let_def
      split: option.splits task_error.splits)

lemma worked_runTask: "taskHeap w a = Some task \<Longrightarrow> worked w (runTask env a task w)"
proof -
  assume h: "taskHeap w a = Some task"
  then have "(task_event task, Origin (task_t task)) \<in> taskEvents w"
    unfolding taskEvents_def by blast
  then have "\<exists>xs. roomserverInput (runTask env a task w) = roomserverInput w @ xs
                  \<and> set xs \<subseteq> taskEvents w"
    using roomserverInput_runTask [of env a task w] by auto
  with sameTasks_runTask [OF h] show ?thesis by (simp add: worked_def)
qed

lemma worked_run: "worked w (run env room w)"
proof (induction w rule: run_induct [where room = room and env = env])
  case (no_worker w)
  then show ?case by (simp add: run_no_worker)
next
  case (empty w t)
  have "worked w (w\<lparr>inputWorkers := (inputWorkers w)(room \<mapsto> t\<lparr>running := False\<rparr>)\<rparr>)"
    by (rule worked_same) simp_all
  with empty show ?case by (simp add: run_empty)
next
  case (nil_task w t a rest)
  have "worked w (dequeued room t rest w)"
    by (rule worked_same) (simp_all add: dequeued_def)
  from worked_trans [OF this nil_task(4)] nil_task(1-3)
  show ?case by (simp add: run_nil_task)
next
  case (task w t a rest task)
  have d: "worked w (dequeued room t rest w)"
    by (rule worked_same) (simp_all add: dequeued_def)
  have "taskHeap (dequeued room t rest w) a = Some task"
    using task(3) by (simp add: dequeued_def)
  then have "worked (dequeued room t rest w) (runTask env a task (dequeued room t rest w))"
    by (rule worked_runTask)
  from worked_trans [OF worked_trans [OF d this] task(4)] task(1-3)
  show ?case by (simp add: run_task)
qed

lemma worked_fold_run: "worked w (fold (run env) rooms w)"
proof (induction rooms arbitrary: w)
  case Nil
  show ?case by simp
next
  case (Cons room rooms)
  show ?case
    using worked_trans [OF worked_run [of w env room] Cons [of "run env room w"]] by simp
qed

lemma worked_runGoroutines: "worked w (runGoroutines env w)"
proof -
  have "worked w (w\<lparr>goroutines := []\<rparr>)" by (rule worked_same) simp_all
  then show ?thesis
    unfolding runGoroutines_def by (rule worked_trans) (rule worked_fold_run)
qed

lemma worked_wgWait: "worked w (snd (wgWait env wg w))"
  by (simp add: wgWait_def Let_def worked_runGoroutines)

text \<open>
  A task that waits in the queue of a room is handed to the roomserver when the worker
  of that room runs, unless its context is done.
\<close>

lemma roomserverInput_run_mono:
  "x \<in> set (roomserverInput w) \<Longrightarrow> x \<in> set (roomserverInput (run env room w))"
  using worked_run [of w env room] by (auto simp: worked_def)

lemma run_submits:
  assumes "inputWorkers w room = Some t" and "a \<in> set (q_tasks (input t))"
    and "taskHeap w a = Some task"
    and "\<not> ctxDone (cancelled w) (now w) (task_ctx task)"
  shows "(task_event task, Origin (task_t task)) \<in> set (roomserverInput (run env room w))"
  using assms
proof (induction w arbitrary: t rule: run_induct [where room = room and env = env])
  case (no_worker w)
  then show ?case by simp
next
  case (empty w t')
  then show ?case by simp
next
  case (nil_task w t' b rest)
  let ?w1 = "dequeued room t' rest w"
  from nil_task have ab: "a \<noteq> b" by auto
  with nil_task have "a \<in> set rest" by auto
  then have "(task_event task, Origin (task_t task)) \<in> set (roomserverInput (run env room ?w1))"
    using nil_task.prems by (intro nil_task.IH [of "t'\<lparr>input := (input t')\<lparr>q_tasks := rest\<rparr>\<rparr>"])
      (simp_all add: dequeued_def)
  with nil_task(1-3) show ?case by (simp add: run_nil_task)
next
  case (task w t' b rest tb)
  let ?w1 = "dequeued room t' rest w"
  let ?w2 = "runTask env b tb ?w1"
  have fr: "frame ?w1 ?w2" by (rule frame_runTask)
  have cn: "cancelled ?w2 = cancelled w" "now ?w2 = now w"
    using fr by (simp_all add: frame_def dequeued_def)
  show ?case
  proof (cases "a = b")
    case True
    with task have tk: "tb = task" by simp
    have "\<not> ctxDone (cancelled ?w1) (now ?w1) (task_ctx task)"
      using task.prems by (simp add: dequeued_def)
    then have "roomserverInput ?w2 = roomserverInput ?w1 @ [(task_event task, Origin (task_t task))]"
      unfolding tk by (rule runTask_processed(1))
    then have "(task_event task, Origin (task_t task)) \<in> set (roomserverInput ?w2)" by simp
    then have "(task_event task, Origin (task_t task)) \<in> set (roomserverInput (run env room ?w2))"
      by (rule roomserverInput_run_mono)
    with task(1-3) show ?thesis by (simp add: run_task)
  next
    case False
    with task have ar: "a \<in> set rest" by auto
    obtain e where e: "taskHeap ?w2 = (taskHeap ?w1)(b \<mapsto> tb\<lparr>task_err := e\<rparr>)"
      using taskHeap_runTask by blast
    have "taskHeap ?w1 a = Some task"
      using task.prems by (simp add: dequeued_def)
    with False have h: "taskHeap ?w2 a = Some task"
      by (simp add: e)
    have "(task_event task, Origin (task_t task)) \<in> set (roomserverInput (run env room ?w2))"
      using ar h cn task.prems
      by (intro task.IH [of "t'\<lparr>input := (input t')\<lparr>q_tasks := rest\<rparr>\<rparr>"])
        (simp_all add: dequeued_def)
    with task(1-3) show ?thesis by (simp add: run_task)
  qed
qed

section \<open>The loop over the PDUs\<close>

text \<open>
  What an iteration does with a PDU that is not bad JSON. \<open>accepted\<close>: the headered
  event it makes a task for, if the PDU parses, the origin is not banned and the
  signatures verify. \<open>rejection\<close>: the entry it writes to the result map, if the PDU
  parses and fails the ACL check or the signature check. \<open>enqueue\<close>: the state change
  of the enqueueing steps. \<open>counted\<close>: the \<open>total\<close> counter raised.
\<close>

definition accepted :: "env \<Rightarrow> Context \<Rightarrow> txnReq \<Rightarrow> RawMessage \<Rightarrow> HeaderedEvent option" where
  "accepted env ctx t pdu =
     (case parsedEvent env ctx pdu of
        None \<Rightarrow> None
      | Some (event, roomVersion) \<Rightarrow>
          if IsServerBannedFromRoom env ctx (RoomID event) (Origin t) then None
          else (case VerifyEventSignatures env ctx event of
                  Some err \<Rightarrow> None
                | None \<Rightarrow> Some (Headered roomVersion event)))"

definition rejection :: "env \<Rightarrow> Context \<Rightarrow> txnReq \<Rightarrow> RawMessage \<Rightarrow> (string \<times> PDUResult) option" where
  "rejection env ctx t pdu =
     (case parsedEvent env ctx pdu of
        None \<Rightarrow> None
      | Some (event, roomVersion) \<Rightarrow>
          if IsServerBannedFromRoom env ctx (RoomID event) (Origin t) then
            Some (EventID event, \<lparr>Error = ''Forbidden by server ACLs''\<rparr>)
          else (case VerifyEventSignatures env ctx event of
                  Some err \<Rightarrow> Some (EventID event, \<lparr>Error = err\<rparr>)
                | None \<Rightarrow> None))"

definition taskOf :: "Context \<Rightarrow> txnReq \<Rightarrow> nat \<Rightarrow> HeaderedEvent \<Rightarrow> inputTask" where
  "taskOf ctx t wg he = \<lparr>task_ctx = ctx, task_t = t, task_event = he, task_wg = wg, task_err = None\<rparr>"

definition counted :: "world \<Rightarrow> world" where
  "counted w = w\<lparr>pduCountTotal := Inc ''total'' (pduCountTotal w)\<rparr>"

definition enqueue :: "Context \<Rightarrow> txnReq \<Rightarrow> nat \<Rightarrow> HeaderedEvent \<Rightarrow> world \<Rightarrow> world" where
  "enqueue ctx t wg he w =
     (let worker = (case inputWorkers w (RoomID he) of
                      Some v \<Rightarrow> v
                    | None \<Rightarrow> \<lparr>running = False, input = newSendFIFOQueue\<rparr>);
          a = nextAddr w
      in w\<lparr>wgHeap := (wgHeap w)(wg \<mapsto> (case wgHeap w wg of None \<Rightarrow> 1 | Some c \<Rightarrow> Suc c)),
            taskHeap := (taskHeap w)(a \<mapsto> taskOf ctx t wg he),
            nextAddr := Suc a,
            inputWorkers := (inputWorkers w)(RoomID he \<mapsto>
              worker\<lparr>input := push a (input worker), running := True\<rparr>),
            goroutines := (if running worker then goroutines w else goroutines w @ [RoomID he])\<rparr>)"

lemma accepted_not_bad: "accepted env ctx t pdu = Some he \<Longrightarrow> \<not> isBadJSON env ctx pdu"
  by (auto simp: accepted_def parsedEvent_def isBadJSON_def
      split: sum.splits option.splits parse_error.splits if_splits)

lemma rejection_not_bad: "rejection env ctx t pdu = Some kr \<Longrightarrow> \<not> isBadJSON env ctx pdu"
  by (auto simp: rejection_def parsedEvent_def isBadJSON_def
      split: sum.splits option.splits parse_error.splits if_splits)

lemma accepted_not_rejected: "accepted env ctx t pdu = Some he \<Longrightarrow> rejection env ctx t pdu = None"
  by (auto simp: accepted_def rejection_def split: option.splits if_splits)

lemma parsedEvent_Some:
  "parsedEvent env ctx pdu = Some (event, roomVersion) \<Longrightarrow>
     \<exists>roomID. unmarshalHeader env pdu = Inr roomID
       \<and> QueryRoomVersionForRoom env ctx roomID = Inr roomVersion
       \<and> NewEventFromUntrustedJSON env pdu roomVersion = Inr event"
  by (auto simp: parsedEvent_def split: sum.splits)

lemma parsedEvent_None:
  "parsedEvent env ctx pdu = None \<Longrightarrow> \<not> isBadJSON env ctx pdu \<Longrightarrow>
     processPDU env ctx t wg pdu l w = (None, l, counted w)"
  by (auto simp: parsedEvent_def isBadJSON_def processPDU_def counted_def Let_def
      split: sum.splits parse_error.splits)

lemma processPDU_accepted:
  assumes "accepted env ctx t pdu = Some he"
  shows "processPDU env ctx t wg pdu l w =
           (None, l\<lparr>l_tasks := l_tasks l @ [nextAddr w]\<rparr>, enqueue ctx t wg he (counted w))"
proof -
  from assms obtain event roomVersion where
    p: "parsedEvent env ctx pdu = Some (event, roomVersion)"
    and b: "\<not> IsServerBannedFromRoom env ctx (RoomID event) (Origin t)"
    and v: "VerifyEventSignatures env ctx event = None"
    and he: "he = Headered roomVersion event"
    by (auto simp: accepted_def split: option.splits if_splits)
  from parsedEvent_Some [OF p] obtain roomID where
    "unmarshalHeader env pdu = Inr roomID"
    "QueryRoomVersionForRoom env ctx roomID = Inr roomVersion"
    "NewEventFromUntrustedJSON env pdu roomVersion = Inr event"
    by blast
  moreover have "RoomID he = RoomID event"
    by (simp add: he Headered_def)
  ultimately show ?thesis
    using b v he
    by (simp add: processPDU_def enqueue_def counted_def taskOf_def wgAdd_def Let_def)
qed

lemma processPDU_not_accepted:
  assumes "accepted env ctx t pdu = None" and "\<not> isBadJSON env ctx pdu"
  shows "processPDU env ctx t wg pdu l w =
           (None,
            (case rejection env ctx t pdu of
               None \<Rightarrow> l
             | Some (k, r) \<Rightarrow> l\<lparr>l_results := (l_results l)(k \<mapsto> r)\<rparr>),
            counted w)"
proof (cases "parsedEvent env ctx pdu")
  case None
  then have "rejection env ctx t pdu = None" by (simp add: rejection_def)
  with parsedEvent_None [OF None assms(2)] show ?thesis by simp
next
  case (Some ev)
  obtain event roomVersion where ev: "ev = (event, roomVersion)" by (cases ev) auto
  from parsedEvent_Some [OF Some [unfolded ev]] obtain roomID where
    h: "unmarshalHeader env pdu = Inr roomID"
    "QueryRoomVersionForRoom env ctx roomID = Inr roomVersion"
    "NewEventFromUntrustedJSON env pdu roomVersion = Inr event"
    by blast
  show ?thesis
  proof (cases "IsServerBannedFromRoom env ctx (RoomID event) (Origin t)")
    case True
    with Some ev h show ?thesis
      by (simp add: processPDU_def rejection_def counted_def Let_def)
  next
    case False
    with assms(1) Some ev obtain err where "VerifyEventSignatures env ctx event = Some err"
      by (auto simp: accepted_def split: option.splits)
    with False Some ev h show ?thesis
      by (simp add: processPDU_def rejection_def counted_def Let_def)
  qed
qed

lemma processPDU_bad_counted:
  "isBadJSON env ctx pdu \<Longrightarrow> processPDU env ctx t wg pdu l w = (Some badJSONResponse, l, counted w)"
  by (simp add: processPDU_bad counted_def)

text \<open>
  \<open>grows P w w'\<close>: from \<open>w\<close> to \<open>w'\<close> nothing was handed to the roomserver, the
  heap changed only by new tasks that satisfy \<open>P\<close>, at addresses allocated in
  between, and every worker kept the tasks in its queue and, if it was running, its
  \<open>running\<close> flag. The loop over the PDUs does no more than that.
\<close>

definition grows :: "(inputTask \<Rightarrow> bool) \<Rightarrow> world \<Rightarrow> world \<Rightarrow> bool" where
  "grows P w w' \<longleftrightarrow>
     nextAddr w \<le> nextAddr w' \<and> roomserverInput w' = roomserverInput w \<and>
     cancelled w' = cancelled w \<and> now w' = now w \<and>
     (\<forall>a. taskHeap w' a = taskHeap w a \<or>
          (nextAddr w \<le> a \<and> a < nextAddr w' \<and> (\<exists>task. taskHeap w' a = Some task \<and> P task))) \<and>
     (\<forall>room worker. inputWorkers w room = Some worker \<longrightarrow>
        (\<exists>worker'. inputWorkers w' room = Some worker' \<and>
           set (q_tasks (input worker)) \<subseteq> set (q_tasks (input worker')) \<and>
           (running worker \<longrightarrow> running worker')))"

lemma grows_refl [simp]: "grows P w w"
  by (simp add: grows_def)

lemma grows_trans:
  assumes "grows P w w'" and "grows P w' w''"
  shows "grows P w w''"
  unfolding grows_def
proof (intro conjI allI impI)
  show "nextAddr w \<le> nextAddr w''" "roomserverInput w'' = roomserverInput w"
    "cancelled w'' = cancelled w" "now w'' = now w"
    using assms by (simp_all add: grows_def)
next
  fix a
  have n: "nextAddr w \<le> nextAddr w'" "nextAddr w' \<le> nextAddr w''"
    using assms by (simp_all add: grows_def)
  have 1: "taskHeap w' a = taskHeap w a \<or>
        (nextAddr w \<le> a \<and> a < nextAddr w' \<and> (\<exists>task. taskHeap w' a = Some task \<and> P task))"
    using assms(1) by (simp add: grows_def)
  have 2: "taskHeap w'' a = taskHeap w' a \<or>
        (nextAddr w' \<le> a \<and> a < nextAddr w'' \<and> (\<exists>task. taskHeap w'' a = Some task \<and> P task))"
    using assms(2) by (simp add: grows_def)
  from 1 2 n
  show "taskHeap w'' a = taskHeap w a \<or>
        (nextAddr w \<le> a \<and> a < nextAddr w'' \<and> (\<exists>task. taskHeap w'' a = Some task \<and> P task))"
    by (elim disjE conjE) (auto dest: le_trans less_le_trans)
next
  fix room worker
  assume "inputWorkers w room = Some worker"
  with assms(1) obtain worker' where 1: "inputWorkers w' room = Some worker'"
    "set (q_tasks (input worker)) \<subseteq> set (q_tasks (input worker'))"
    "running worker \<longrightarrow> running worker'"
    unfolding grows_def by blast
  with assms(2) obtain worker'' where 2: "inputWorkers w'' room = Some worker''"
    "set (q_tasks (input worker')) \<subseteq> set (q_tasks (input worker''))"
    "running worker' \<longrightarrow> running worker''"
    unfolding grows_def by blast
  from 1 2
  show "\<exists>worker'. inputWorkers w'' room = Some worker' \<and>
          set (q_tasks (input worker)) \<subseteq> set (q_tasks (input worker')) \<and>
          (running worker \<longrightarrow> running worker')"
    by auto
qed

lemma grows_mono: "grows P w w' \<Longrightarrow> (\<And>task. P task \<Longrightarrow> Q task) \<Longrightarrow> grows Q w w'"
  unfolding grows_def by meson

lemma grows_counted [simp]: "grows P w (counted w)"
  by (simp add: grows_def counted_def)

lemma grows_enqueue: "P (taskOf ctx t wg he) \<Longrightarrow> grows P w (enqueue ctx t wg he w)"
  by (auto simp: grows_def enqueue_def Let_def push_def)

definition newTask :: "env \<Rightarrow> Context \<Rightarrow> txnReq \<Rightarrow> nat \<Rightarrow> RawMessage set \<Rightarrow> inputTask \<Rightarrow> bool" where
  "newTask env ctx t wg S task \<longleftrightarrow>
     (\<exists>pdu \<in> S. \<exists>he. accepted env ctx t pdu = Some he \<and> task = taskOf ctx t wg he)"

lemma grows_processPDU:
  "grows (newTask env ctx t wg {pdu}) w (snd (snd (processPDU env ctx t wg pdu l w)))"
proof (cases "isBadJSON env ctx pdu")
  case True
  then show ?thesis by (simp add: processPDU_bad_counted)
next
  case False
  show ?thesis
  proof (cases "accepted env ctx t pdu")
    case None
    with False show ?thesis by (simp add: processPDU_not_accepted)
  next
    case (Some he)
    have "newTask env ctx t wg {pdu} (taskOf ctx t wg he)"
      using Some by (simp add: newTask_def)
    then have "grows (newTask env ctx t wg {pdu}) (counted w) (enqueue ctx t wg he (counted w))"
      by (rule grows_enqueue)
    with grows_counted have "grows (newTask env ctx t wg {pdu}) w (enqueue ctx t wg he (counted w))"
      by (rule grows_trans)
    with Some show ?thesis by (simp add: processPDU_accepted)
  qed
qed

lemma newTask_mono: "newTask env ctx t wg S task \<Longrightarrow> S \<subseteq> S' \<Longrightarrow> newTask env ctx t wg S' task"
  unfolding newTask_def by blast

lemma grows_processPDUs:
  "grows (newTask env ctx t wg (set pdus)) w (snd (snd (processPDUs env ctx t wg pdus l w)))"
proof (induction pdus arbitrary: l w)
  case Nil
  show ?case by simp
next
  case (Cons pdu pdus)
  obtain r l1 w1 where p: "processPDU env ctx t wg pdu l w = (r, l1, w1)"
    by (cases "processPDU env ctx t wg pdu l w") auto
  have "grows (newTask env ctx t wg {pdu}) w w1"
    using grows_processPDU [of env ctx t wg pdu w l] p by simp
  then have g1: "grows (newTask env ctx t wg (set (pdu # pdus))) w w1"
    by (rule grows_mono) (auto elim: newTask_mono)
  show ?case
  proof (cases r)
    case (Some res)
    with p g1 show ?thesis by simp
  next
    case None
    have "grows (newTask env ctx t wg (set (pdu # pdus))) w1
            (snd (snd (processPDUs env ctx t wg pdus l1 w1)))"
      by (rule grows_mono [OF Cons]) (auto elim: newTask_mono)
    with g1 have "grows (newTask env ctx t wg (set (pdu # pdus))) w
            (snd (snd (processPDUs env ctx t wg pdus l1 w1)))"
      by (rule grows_trans)
    with p None show ?thesis by simp
  qed
qed

text \<open>
  \<open>queued w a task\<close>: the task at address \<open>a\<close> waits in the queue of its room, and
  the worker of that room is marked as running.
\<close>

definition queued :: "world \<Rightarrow> nat \<Rightarrow> inputTask \<Rightarrow> bool" where
  "queued w a task \<longleftrightarrow>
     taskHeap w a = Some task \<and> a < nextAddr w \<and>
     (\<exists>worker. inputWorkers w (RoomID (task_event task)) = Some worker \<and> running worker \<and>
        a \<in> set (q_tasks (input worker)))"

lemma queued_grows: "queued w a task \<Longrightarrow> grows P w w' \<Longrightarrow> queued w' a task"
  unfolding queued_def grows_def
  by (metis (no_types, lifting) leD less_le_trans not_le_imp_less subsetD)

lemma queued_enqueue: "queued (enqueue ctx t wg he w) (nextAddr w) (taskOf ctx t wg he)"
  by (simp add: queued_def enqueue_def Let_def push_def taskOf_def)

lemma processPDUs_append:
  "processPDUs env ctx t wg (xs @ ys) l w =
     (case processPDUs env ctx t wg xs l w of
        (Some r, l', w') \<Rightarrow> (Some r, l', w')
      | (None, l', w') \<Rightarrow> processPDUs env ctx t wg ys l' w')"
  by (induction xs arbitrary: l w) (auto split: prod.splits option.splits)

text \<open>
  The tasks the loop adds to its list: each is the task of an accepted PDU and waits in
  its room's queue; and while the loop does not return early, every accepted PDU has
  one.
\<close>

lemma processPDUs_tasks:
  assumes "processPDUs env ctx t wg pdus l w = (r, l', w')"
  shows "\<exists>new. l_tasks l' = l_tasks l @ new
           \<and> (\<forall>a \<in> set new. \<exists>task. newTask env ctx t wg (set pdus) task \<and> queued w' a task)
           \<and> (r = None \<longrightarrow>
                (\<forall>pdu \<in> set pdus. \<forall>he. accepted env ctx t pdu = Some he \<longrightarrow>
                   (\<exists>a \<in> set new. queued w' a (taskOf ctx t wg he))))"
  using assms
proof (induction pdus arbitrary: l w)
  case Nil
  then show ?case by simp
next
  case (Cons pdu pdus)
  let ?N = "newTask env ctx t wg (set (pdu # pdus))"
  show ?case
  proof (cases "isBadJSON env ctx pdu")
    case True
    then have "processPDUs env ctx t wg (pdu # pdus) l w = (Some badJSONResponse, l, counted w)"
      by (simp add: processPDU_bad_counted)
    with Cons.prems have "l' = l" "r = Some badJSONResponse" by simp_all
    then show ?thesis by simp
  next
    case False
    show ?thesis
    proof (cases "accepted env ctx t pdu")
      case None
      define l1 where "l1 = (case rejection env ctx t pdu of
           None \<Rightarrow> l | Some (k, r) \<Rightarrow> l\<lparr>l_results := (l_results l)(k \<mapsto> r)\<rparr>)"
      have lt: "l_tasks l1 = l_tasks l"
        by (simp add: l1_def split: option.splits)
      have "processPDUs env ctx t wg (pdu # pdus) l w = processPDUs env ctx t wg pdus l1 (counted w)"
        using None False by (simp add: processPDU_not_accepted l1_def)
      with Cons.prems have rest: "processPDUs env ctx t wg pdus l1 (counted w) = (r, l', w')"
        by simp
      from Cons.IH [OF rest] obtain new where
        new: "l_tasks l' = l_tasks l1 @ new"
        and q: "\<forall>a \<in> set new. \<exists>task. newTask env ctx t wg (set pdus) task \<and> queued w' a task"
        and all: "r = None \<longrightarrow>
                  (\<forall>pdu \<in> set pdus. \<forall>he. accepted env ctx t pdu = Some he \<longrightarrow>
                     (\<exists>a \<in> set new. queued w' a (taskOf ctx t wg he)))"
        by blast
      have q': "\<forall>a \<in> set new. \<exists>task. ?N task \<and> queued w' a task"
        using q by (meson newTask_mono set_subset_Cons)
      from new lt q' all None show ?thesis by auto
    next
      case (Some he)
      define l1 where "l1 = l\<lparr>l_tasks := l_tasks l @ [nextAddr w]\<rparr>"
      define w1 where "w1 = enqueue ctx t wg he (counted w)"
      have "processPDUs env ctx t wg (pdu # pdus) l w = processPDUs env ctx t wg pdus l1 w1"
        using Some by (simp add: processPDU_accepted l1_def w1_def)
      with Cons.prems have rest: "processPDUs env ctx t wg pdus l1 w1 = (r, l', w')"
        by simp
      from Cons.IH [OF rest] obtain new where
        new: "l_tasks l' = l_tasks l1 @ new"
        and q: "\<forall>a \<in> set new. \<exists>task. newTask env ctx t wg (set pdus) task \<and> queued w' a task"
        and all: "r = None \<longrightarrow>
                  (\<forall>pdu \<in> set pdus. \<forall>he. accepted env ctx t pdu = Some he \<longrightarrow>
                     (\<exists>a \<in> set new. queued w' a (taskOf ctx t wg he)))"
        by blast
      have q': "\<forall>a \<in> set new. \<exists>task. ?N task \<and> queued w' a task"
        using q by (meson newTask_mono set_subset_Cons)
      have g: "grows (newTask env ctx t wg (set pdus)) w1 w'"
        using grows_processPDUs [of env ctx t wg pdus w1 l1] rest by simp
      have "queued w1 (nextAddr w) (taskOf ctx t wg he)"
        using queued_enqueue [of ctx t wg he "counted w"] by (simp add: w1_def counted_def)
      then have qa: "queued w' (nextAddr w) (taskOf ctx t wg he)"
        using g by (rule queued_grows)
      have na: "?N (taskOf ctx t wg he)"
        using Some by (auto simp: newTask_def)
      have 1: "l_tasks l' = l_tasks l @ (nextAddr w # new)"
        using new by (simp add: l1_def)
      have 2: "\<forall>a \<in> set (nextAddr w # new). \<exists>task. ?N task \<and> queued w' a task"
        using q' qa na by auto
      have 3: "r = None \<longrightarrow>
                (\<forall>pdu' \<in> set (pdu # pdus). \<forall>he'. accepted env ctx t pdu' = Some he' \<longrightarrow>
                   (\<exists>a \<in> set (nextAddr w # new). queued w' a (taskOf ctx t wg he')))"
        using all qa Some by auto
      from 1 2 3 show ?thesis by blast
    qed
  qed
qed

text \<open>
  The entry the loop leaves in the result map under a key, when every PDU that writes
  to the key writes the same entry.
\<close>

lemma processPDUs_result:
  assumes "processPDUs env ctx t wg pdus l w = (None, l', w')"
    and "\<forall>pdu \<in> set pdus. \<forall>res'. rejection env ctx t pdu = Some (k, res') \<longrightarrow> res' = res"
    and "l_results l k = Some res \<or> (\<exists>pdu \<in> set pdus. rejection env ctx t pdu = Some (k, res))"
  shows "l_results l' k = Some res"
  using assms
proof (induction pdus arbitrary: l w)
  case Nil
  then show ?case by simp
next
  case (Cons pdu pdus)
  have nb: "\<not> isBadJSON env ctx pdu"
  proof
    assume "isBadJSON env ctx pdu"
    then have "processPDUs env ctx t wg (pdu # pdus) l w = (Some badJSONResponse, l, counted w)"
      by (simp add: processPDU_bad_counted)
    with Cons.prems(1) show False by simp
  qed
  have all: "\<forall>pdu \<in> set pdus. \<forall>res'. rejection env ctx t pdu = Some (k, res') \<longrightarrow> res' = res"
    using Cons.prems(2) by simp
  show ?case
  proof (cases "accepted env ctx t pdu")
    case (Some he)
    define l1 where "l1 = l\<lparr>l_tasks := l_tasks l @ [nextAddr w]\<rparr>"
    have "processPDUs env ctx t wg (pdu # pdus) l w =
            processPDUs env ctx t wg pdus l1 (enqueue ctx t wg he (counted w))"
      using Some by (simp add: processPDU_accepted l1_def)
    with Cons.prems(1)
    have rest: "processPDUs env ctx t wg pdus l1 (enqueue ctx t wg he (counted w)) = (None, l', w')"
      by simp
    have "rejection env ctx t pdu = None"
      using Some by (rule accepted_not_rejected)
    with Cons.prems(3)
    have "l_results l1 k = Some res \<or> (\<exists>pdu \<in> set pdus. rejection env ctx t pdu = Some (k, res))"
      by (auto simp: l1_def)
    with Cons.IH [OF rest all] show ?thesis by blast
  next
    case None
    define l1 where "l1 = (case rejection env ctx t pdu of
         None \<Rightarrow> l | Some (k, r) \<Rightarrow> l\<lparr>l_results := (l_results l)(k \<mapsto> r)\<rparr>)"
    have "processPDUs env ctx t wg (pdu # pdus) l w = processPDUs env ctx t wg pdus l1 (counted w)"
      using None nb by (simp add: processPDU_not_accepted l1_def)
    with Cons.prems(1) have rest: "processPDUs env ctx t wg pdus l1 (counted w) = (None, l', w')"
      by simp
    have "l_results l1 k = Some res \<or> (\<exists>pdu \<in> set pdus. rejection env ctx t pdu = Some (k, res))"
    proof (cases "rejection env ctx t pdu")
      case None
      with Cons.prems(3) show ?thesis by (auto simp: l1_def)
    next
      case (Some kr)
      obtain k' r' where kr: "kr = (k', r')" by (cases kr) auto
      show ?thesis
      proof (cases "k' = k")
        case True
        with Some kr Cons.prems(2) have "r' = res" by auto
        with True Some kr show ?thesis by (simp add: l1_def)
      next
        case False
        with Some kr Cons.prems(3) show ?thesis by (auto simp: l1_def)
      qed
    qed
    with Cons.IH [OF rest all] show ?thesis by blast
  qed
qed

lemma aggregate_key:
  "aggregate w as results k =
     (if \<exists>a \<in> set as. \<exists>task. taskHeap w a = Some task \<and> EventID (task_event task) = k
      then Some \<lparr>Error = []\<rparr> else results k)"
  by (induction as arbitrary: results) (auto split: option.splits)

lemma aggregate_other:
  "\<forall>a \<in> set as. \<forall>task. taskHeap w a = Some task \<longrightarrow> EventID (task_event task) \<noteq> k \<Longrightarrow>
     aggregate w as results k = results k"
  by (auto simp: aggregate_key)

lemma aggregate_task:
  "a \<in> set as \<Longrightarrow> taskHeap w a = Some task \<Longrightarrow>
     aggregate w as results (EventID (task_event task)) = Some \<lparr>Error = []\<rparr>"
  by (auto simp: aggregate_key)

section \<open>The whole of processTransaction\<close>

definition started :: "world \<Rightarrow> world" where
  "started w = w\<lparr>wgHeap := (wgHeap w)(nextAddr w \<mapsto> 0), nextAddr := Suc (nextAddr w)\<rparr>"

definition noResults :: txn_local where
  "noResults = \<lparr>l_results = Map.empty, l_tasks = []\<rparr>"

lemma processTransaction_cases:
  obtains (abort) l1 w1 where
      "processPDUs env ctx t (nextAddr w) (PDUs t) noResults (started w) = (Some badJSONResponse, l1, w1)"
      "processTransaction env ctx t w = (Some (Inl badJSONResponse), w1)"
  | (waited) l1 w1 b w2 where
      "processPDUs env ctx t (nextAddr w) (PDUs t) noResults (started w) = (None, l1, w1)"
      "wgWait env (nextAddr w) (processEDUs t w1) = (b, w2)"
      "processTransaction env ctx t w =
         (if b then Some (Inr (aggregate w2 (l_tasks l1) (l_results l1))) else None, w2)"
proof -
  obtain r l1 w1 where p: "processPDUs env ctx t (nextAddr w) (PDUs t) noResults (started w) = (r, l1, w1)"
    by (cases "processPDUs env ctx t (nextAddr w) (PDUs t) noResults (started w)") auto
  show ?thesis
  proof (cases r)
    case (Some res)
    with p processPDUs_Some [of env ctx t "nextAddr w" "PDUs t" noResults "started w" res]
    have r: "r = Some badJSONResponse" by simp
    with p have "processTransaction env ctx t w = (Some (Inl badJSONResponse), w1)"
      by (simp add: processTransaction_def Let_def started_def noResults_def)
    with p r show ?thesis by (intro abort) simp_all
  next
    case None
    obtain b w2 where wt: "wgWait env (nextAddr w) (processEDUs t w1) = (b, w2)"
      by (cases "wgWait env (nextAddr w) (processEDUs t w1)") auto
    with p None have "processTransaction env ctx t w =
         (if b then Some (Inr (aggregate w2 (l_tasks l1) (l_results l1))) else None, w2)"
      by (cases b) (simp_all add: processTransaction_def Let_def started_def noResults_def)
    with p None wt show ?thesis by (intro waited) simp_all
  qed
qed

lemma grows_started [simp]: "grows P w (started w)"
  by (simp add: grows_def started_def)

lemma grows_processEDUs [simp]: "grows P w (processEDUs t w)"
  by (simp add: grows_def processEDUs_def)

lemma queued_submits:
  assumes "queued w a task" and "\<not> ctxDone (cancelled w) (now w) (task_ctx task)"
  shows "(task_event task, Origin (task_t task))
           \<in> set (roomserverInput (run env (RoomID (task_event task)) w))"
proof -
  from assms(1) obtain worker where
    "inputWorkers w (RoomID (task_event task)) = Some worker" "a \<in> set (q_tasks (input worker))"
    "taskHeap w a = Some task"
    by (auto simp: queued_def)
  then show ?thesis using assms(2) by (rule run_submits)
qed

text \<open>
  C9. Let the PDUs before \<open>bad\<close> be free of bad JSON and let \<open>bad\<close> fail with a
  bad-JSON error. Then \<open>processTransaction\<close> returns the 400 response and nothing
  else: the results collected so far are not part of what it returns. It returns
  without any worker having run in between: the roomserver has been given nothing, and
  for every earlier PDU that passed its checks a task still waits in its room's queue,
  with the worker of that room marked as running. When that worker runs, the event is
  handed to the roomserver (unless the context given to \<open>processTransaction\<close> is done
  by then).
\<close>

theorem abort_leaves_tasks_pending:
  assumes "PDUs t = pre @ bad # post"
    and "\<forall>pdu \<in> set pre. \<not> isBadJSON env ctx pdu"
    and "isBadJSON env ctx bad"
    and "processTransaction env ctx t w = (r, w')"
  shows "r = Some (Inl \<lparr>Code = 400, JSON = MatrixError ''M_BAD_JSON'' ''PDU contains bad JSON''\<rparr>)
       \<and> roomserverInput w' = roomserverInput w
       \<and> (\<forall>pdu \<in> set pre. \<forall>he. accepted env ctx t pdu = Some he \<longrightarrow>
            (\<exists>a. queued w' a (taskOf ctx t (nextAddr w) he)
                \<and> (\<not> ctxDone (cancelled w') (now w') ctx \<longrightarrow>
                     (he, Origin t) \<in> set (roomserverInput (run env (RoomID he) w')))))"
proof -
  let ?wg = "nextAddr w"
  obtain r1 l1 w1 where pre: "processPDUs env ctx t ?wg pre noResults (started w) = (r1, l1, w1)"
    by (cases "processPDUs env ctx t ?wg pre noResults (started w)") auto
  have "fst (processPDUs env ctx t ?wg pre noResults (started w)) = None"
    using assms(2) by (rule processPDUs_None)
  with pre have r1: "r1 = None" by simp
  have "processPDUs env ctx t ?wg (bad # post) l1 w1 = (Some badJSONResponse, l1, counted w1)"
    using assms(3) by (simp add: processPDU_bad_counted)
  then have all: "processPDUs env ctx t ?wg (PDUs t) noResults (started w)
                  = (Some badJSONResponse, l1, counted w1)"
    using pre r1 by (simp add: assms(1) processPDUs_append)
  then have pt: "processTransaction env ctx t w = (Some (Inl badJSONResponse), counted w1)"
    by (simp add: processTransaction_def Let_def started_def noResults_def)
  with assms(4) have r: "r = Some (Inl badJSONResponse)" and w': "w' = counted w1" by simp_all
  have g: "grows (newTask env ctx t ?wg (set pre)) w w'"
  proof -
    have "grows (newTask env ctx t ?wg (set pre)) (started w) w1"
      using grows_processPDUs [of env ctx t ?wg pre "started w" noResults] pre by simp
    then have "grows (newTask env ctx t ?wg (set pre)) w w1"
      using grows_started grows_trans by blast
    then show ?thesis
      unfolding w' using grows_counted grows_trans by blast
  qed
  from processPDUs_tasks [OF pre] r1 obtain new where
    q: "\<forall>pdu \<in> set pre. \<forall>he. accepted env ctx t pdu = Some he \<longrightarrow>
          (\<exists>a \<in> set new. queued w1 a (taskOf ctx t ?wg he))"
    by blast
  have "\<exists>a. queued w' a (taskOf ctx t ?wg he)
           \<and> (\<not> ctxDone (cancelled w') (now w') ctx \<longrightarrow>
                (he, Origin t) \<in> set (roomserverInput (run env (RoomID he) w')))"
    if "pdu \<in> set pre" "accepted env ctx t pdu = Some he" for pdu he
  proof -
    from q that obtain a where "queued w1 a (taskOf ctx t ?wg he)" by blast
    then have qa: "queued w' a (taskOf ctx t ?wg he)"
      unfolding w' using grows_counted by (rule queued_grows)
    have "(he, Origin t) \<in> set (roomserverInput (run env (RoomID he) w'))"
      if "\<not> ctxDone (cancelled w') (now w') ctx"
      using queued_submits [OF qa, of env] that by (simp add: taskOf_def)
    with qa show ?thesis by blast
  qed
  moreover have "roomserverInput w' = roomserverInput w"
    using g by (simp add: grows_def)
  ultimately show ?thesis
    using r by (simp add: badJSONResponse_def)
qed

theorem abort_leaves_tasks_pending_witness:
  "fst (processTransaction exampleEnv Background (exampleTxn [''A'', ''N'', ''X'']) idleWorld) =
     Some (Inl \<lparr>Code = 400, JSON = MatrixError ''M_BAD_JSON'' ''PDU contains bad JSON''\<rparr>)
   \<and> roomserverInput
       (snd (processTransaction exampleEnv Background (exampleTxn [''A'', ''N'', ''X'']) idleWorld)) = []
   \<and> (Headered ''6'' (exampleEvent ''A''), ''a.example'')
       \<in> set (roomserverInput (run exampleEnv ''!r''
            (snd (processTransaction exampleEnv Background (exampleTxn [''A'', ''N'', ''X''])
               idleWorld))))"
proof -
  have 1: "isBadJSON exampleEnv Background ''X''"
    by (simp add: isBadJSON_def exampleEnv_def)
  have 2: "\<forall>pdu \<in> set [''A'', ''N'']. \<not> isBadJSON exampleEnv Background pdu"
    by (simp add: isBadJSON_def exampleEnv_def)
  have 3: "accepted exampleEnv Background (exampleTxn [''A'', ''N'', ''X'']) ''A''
             = Some (Headered ''6'' (exampleEvent ''A''))"
    by (simp add: accepted_def parsedEvent_def exampleEnv_def exampleEvent_def exampleTxn_def)
  have 4: "PDUs (exampleTxn [''A'', ''N'', ''X'']) = [''A'', ''N''] @ ''X'' # []"
    by (simp add: exampleTxn_def)
  have 5: "RoomID (Headered ''6'' (exampleEvent ''A'')) = ''!r''"
    by (simp add: Headered_def exampleEvent_def)
  have 6: "Origin (exampleTxn [''A'', ''N'', ''X'']) = ''a.example''"
    by (simp add: exampleTxn_def)
  from abort_leaves_tasks_pending [OF 4 2 1 prod.collapse [symmetric]] 3 5 6
  show ?thesis
    by (auto simp: idleWorld_def)
qed

section \<open>Results for rejected PDUs\<close>

lemma accepted_EventID:
  "accepted env ctx t pdu = Some he \<Longrightarrow>
     \<exists>e v. parsedEvent env ctx pdu = Some (e, v) \<and> EventID he = EventID e"
  by (auto simp: accepted_def Headered_def split: option.splits if_splits)

lemma rejection_EventID:
  "rejection env ctx t pdu = Some (k, res) \<Longrightarrow>
     \<exists>e v. parsedEvent env ctx pdu = Some (e, v) \<and> k = EventID e"
  by (auto simp: rejection_def split: option.splits if_splits)

lemma noErr_event: "noErr task1 = noErr task \<Longrightarrow> task_event task1 = task_event task"
  by (metis inputTask.select_convs(3) inputTask.surjective inputTask.update_convs(5) noErr_def)

lemma sameTask_at:
  "map_option noErr x = map_option noErr y \<Longrightarrow> x = Some task \<Longrightarrow>
     \<exists>task1. y = Some task1 \<and> noErr task1 = noErr task"
  by (cases y) auto

text \<open>The entry of the returned result map under a key, if a map is returned.\<close>

definition pduResult ::
  "(response + (string \<Rightarrow> PDUResult option)) option \<Rightarrow> string \<Rightarrow> PDUResult option" where
  "pduResult r k = (case r of Some (Inr results) \<Rightarrow> results k | _ \<Rightarrow> None)"

text \<open>
  C5 as stated fails. In the transaction of the PDUs \<open>F\<close> and \<open>G\<close>, both parse to
  event \<open>$f\<close>; the signature of \<open>F\<close> does not verify (the verifier's error is
  \<open>bad signature\<close>), the signature of \<open>G\<close> does. The transaction is accepted, and
  its result map holds the empty result for \<open>$f\<close>, not the verifier's error: the
  result written for the task of \<open>G\<close> replaces the one written for \<open>F\<close>.
\<close>

theorem rejected_pdu_result_counterexample:
  "''F'' \<in> set (PDUs (exampleTxn [''F'', ''G'']))
   \<and> parsedEvent exampleEnv Background ''F'' = Some (exampleEvent ''F'', ''6'')
   \<and> EventID (exampleEvent ''F'') = ''$f''
   \<and> VerifyEventSignatures exampleEnv Background (exampleEvent ''F'') = Some ''bad signature''
   \<and> pduResult (fst (processTransaction exampleEnv Background (exampleTxn [''F'', ''G'']) idleWorld))
        ''$f'' = Some \<lparr>Error = []\<rparr>"
  by (simp add: pduResult_def processTransaction_def processPDU_def processEDUs_def wgWait_def
      runGoroutines_def run.simps runTask_def processEvent_def setErr_def wgAdd_def wgDone_def
      pop_def push_def newSendFIFOQueue_def parsedEvent_def Headered_def
      exampleEnv_def exampleEvent_def exampleTxn_def idleWorld_def Let_def)

text \<open>
  C5, amended. Take an accepted transaction and a PDU of it that parses to event \<open>e\<close>,
  and let no other PDU of the transaction parse to an event with the same ID. If the
  origin is banned from the event's room, the returned map holds, for that event ID,
  the error \<open>Forbidden by server ACLs\<close>; if it is not banned and the signatures do
  not verify, the map holds the verifier's error string. In both cases no task is made
  for the event (a task with that event ID on the heap afterwards was there before),
  and whatever the roomserver was given during the call under that event ID came from
  a task that was there before.
\<close>

theorem rejected_pdu_result:
  assumes "processTransaction env ctx t w = (Some (Inr results), w')"
    and "pdu \<in> set (PDUs t)"
    and "parsedEvent env ctx pdu = Some (e, v)"
    and "\<forall>pdu' \<in> set (PDUs t). \<forall>e' v'.
           parsedEvent env ctx pdu' = Some (e', v') \<longrightarrow> EventID e' = EventID e \<longrightarrow> pdu' = pdu"
  shows "(IsServerBannedFromRoom env ctx (RoomID e) (Origin t) \<longrightarrow>
            results (EventID e) = Some \<lparr>Error = ''Forbidden by server ACLs''\<rparr>)
       \<and> (\<not> IsServerBannedFromRoom env ctx (RoomID e) (Origin t) \<longrightarrow>
            (\<forall>err. VerifyEventSignatures env ctx e = Some err \<longrightarrow>
               results (EventID e) = Some \<lparr>Error = err\<rparr>))
       \<and> (IsServerBannedFromRoom env ctx (RoomID e) (Origin t)
            \<or> VerifyEventSignatures env ctx e \<noteq> None \<longrightarrow>
            (\<forall>a task. taskHeap w' a = Some task \<longrightarrow> EventID (task_event task) = EventID e \<longrightarrow>
               (\<exists>task0. taskHeap w a = Some task0 \<and> noErr task0 = noErr task))
            \<and> (\<exists>xs. roomserverInput w' = roomserverInput w @ xs
                  \<and> (\<forall>x \<in> set xs. EventID (fst x) = EventID e \<longrightarrow>
                       (\<exists>a task0. taskHeap w a = Some task0
                           \<and> x = (task_event task0, Origin (task_t task0))))))"
proof -
  let ?wg = "nextAddr w"
  let ?k = "EventID e"
  let ?N = "newTask env ctx t ?wg (set (PDUs t))"
  obtain l1 w1 where
    loop: "processPDUs env ctx t ?wg (PDUs t) noResults (started w) = (None, l1, w1)"
    and wt: "wgWait env ?wg (processEDUs t w1) = (True, w')"
    and res: "results = aggregate w' (l_tasks l1) (l_results l1)"
  proof (cases rule: processTransaction_cases [of env ctx t w])
    case (abort l1 w1)
    with assms(1) show ?thesis by simp
  next
    case (waited l1 w1 b w2)
    with assms(1) have "b" "w2 = w'" "results = aggregate w2 (l_tasks l1) (l_results l1)"
      by (auto split: if_splits)
    with waited that show ?thesis by simp
  qed
  have g: "grows ?N w w1"
    using grows_trans [OF grows_started
        grows_processPDUs [of env ctx t ?wg "PDUs t" "started w" noResults]] loop
    by simp
  have wk: "worked (processEDUs t w1) w'"
    using worked_wgWait [of "processEDUs t w1" env ?wg] wt by simp
  have heap1: "taskHeap (processEDUs t w1) = taskHeap w1"
    and in1: "roomserverInput (processEDUs t w1) = roomserverInput w1"
    by (simp_all add: processEDUs_def)
  have same: "map_option noErr (taskHeap w' a) = map_option noErr (taskHeap w1 a)" for a
    using wk by (simp add: worked_def sameTasks_def heap1)
  have new_other: "EventID (task_event task) \<noteq> ?k"
    if "?N task" "accepted env ctx t pdu = None" for task
  proof
    assume eq: "EventID (task_event task) = ?k"
    from that(1) obtain pdu' he where p': "pdu' \<in> set (PDUs t)"
      "accepted env ctx t pdu' = Some he" "task = taskOf ctx t ?wg he"
      by (auto simp: newTask_def)
    from accepted_EventID [OF p'(2)] obtain e' v' where
      "parsedEvent env ctx pdu' = Some (e', v')" "EventID he = EventID e'"
      by blast
    with eq p'(1,3) assms(4) have "pdu' = pdu" by (auto simp: taskOf_def)
    with p'(2) that(2) show False by simp
  qed
  have old1: "taskHeap w a = Some task1"
    if "taskHeap w1 a = Some task1" "EventID (task_event task1) = ?k"
      "accepted env ctx t pdu = None" for a task1
  proof -
    from g have "taskHeap w1 a = taskHeap w a \<or> (\<exists>task. taskHeap w1 a = Some task \<and> ?N task)"
      unfolding grows_def by blast
    with that new_other show ?thesis by auto
  qed
  have old: "\<exists>task0. taskHeap w a = Some task0 \<and> noErr task0 = noErr task"
    if "taskHeap w' a = Some task" "EventID (task_event task) = ?k"
      "accepted env ctx t pdu = None" for a task
  proof -
    from sameTask_at [OF same [of a] that(1)] obtain task1 where
      t1: "taskHeap w1 a = Some task1" "noErr task1 = noErr task"
      by blast
    from noErr_event [OF t1(2)] that(2) have "EventID (task_event task1) = ?k" by simp
    from old1 [OF t1(1) this that(3)] t1(2) show ?thesis by blast
  qed
  have entry: "results ?k = Some r"
    if rej: "rejection env ctx t pdu = Some (?k, r)" for r
  proof -
    have na: "accepted env ctx t pdu = None"
      using rej accepted_not_rejected [of env ctx t pdu] by (cases "accepted env ctx t pdu") auto
    have agree: "\<forall>pdu' \<in> set (PDUs t). \<forall>res'.
                   rejection env ctx t pdu' = Some (?k, res') \<longrightarrow> res' = r"
    proof (intro ballI allI impI)
      fix pdu' res'
      assume m: "pdu' \<in> set (PDUs t)" and r': "rejection env ctx t pdu' = Some (?k, res')"
      from rejection_EventID [OF r'] obtain e' v' where
        "parsedEvent env ctx pdu' = Some (e', v')" "?k = EventID e'" by blast
      with m assms(4) have "pdu' = pdu" by auto
      with r' rej show "res' = r" by simp
    qed
    have "\<exists>pdu \<in> set (PDUs t). rejection env ctx t pdu = Some (?k, r)"
      using assms(2) rej by blast
    then have "l_results noResults ?k = Some r
               \<or> (\<exists>pdu \<in> set (PDUs t). rejection env ctx t pdu = Some (?k, r))"
      by simp
    with loop agree have lr: "l_results l1 ?k = Some r"
      by (rule processPDUs_result)
    have "\<forall>a \<in> set (l_tasks l1). \<forall>task. taskHeap w' a = Some task \<longrightarrow>
            EventID (task_event task) \<noteq> ?k"
    proof (intro ballI allI impI)
      fix a task
      assume a: "a \<in> set (l_tasks l1)" and h: "taskHeap w' a = Some task"
      from processPDUs_tasks [OF loop] a obtain task1 where
        t1: "?N task1" "queued w1 a task1"
        by (auto simp: noResults_def)
      from sameTask_at [OF same [of a] h] t1(2) have "noErr task1 = noErr task"
        by (auto simp: queued_def)
      from noErr_event [OF this] new_other [OF t1(1) na]
      show "EventID (task_event task) \<noteq> ?k" by simp
    qed
    with lr show ?thesis
      by (simp add: res aggregate_other)
  qed
  have given: "\<exists>xs. roomserverInput w' = roomserverInput w @ xs
                  \<and> (\<forall>x \<in> set xs. EventID (fst x) = ?k \<longrightarrow>
                       (\<exists>a task0. taskHeap w a = Some task0
                           \<and> x = (task_event task0, Origin (task_t task0))))"
    if na: "accepted env ctx t pdu = None"
  proof -
    from wk obtain xs where xs: "roomserverInput w' = roomserverInput w1 @ xs"
      "set xs \<subseteq> taskEvents (processEDUs t w1)"
      by (auto simp: worked_def in1)
    have r1: "roomserverInput w1 = roomserverInput w"
      using g by (simp add: grows_def)
    have "\<exists>a task0. taskHeap w a = Some task0 \<and> x = (task_event task0, Origin (task_t task0))"
      if "x \<in> set xs" "EventID (fst x) = ?k" for x
    proof -
      from that(1) xs(2) obtain a task1 where
        "taskHeap w1 a = Some task1" "x = (task_event task1, Origin (task_t task1))"
        by (auto simp: taskEvents_def heap1)
      with old1 [of a task1] that(2) na show ?thesis by auto
    qed
    with xs(1) r1 show ?thesis by auto
  qed
  have banned: "results ?k = Some \<lparr>Error = ''Forbidden by server ACLs''\<rparr>"
    if "IsServerBannedFromRoom env ctx (RoomID e) (Origin t)"
    using that assms(3) by (intro entry) (simp add: rejection_def)
  have sig: "results ?k = Some \<lparr>Error = err\<rparr>"
    if "\<not> IsServerBannedFromRoom env ctx (RoomID e) (Origin t)"
      "VerifyEventSignatures env ctx e = Some err" for err
    using that assms(3) by (intro entry) (simp add: rejection_def)
  have na: "accepted env ctx t pdu = None"
    if "IsServerBannedFromRoom env ctx (RoomID e) (Origin t)
        \<or> VerifyEventSignatures env ctx e \<noteq> None"
    using that assms(3) by (auto simp: accepted_def)
  from banned sig na old given show ?thesis by blast
qed

theorem rejected_pdu_result_witness:
  "pduResult (fst (processTransaction exampleEnv Background (exampleTxn [''A'', ''N'', ''F'']) idleWorld))
     ''$N'' = Some \<lparr>Error = ''Forbidden by server ACLs''\<rparr>
   \<and> pduResult (fst (processTransaction exampleEnv Background (exampleTxn [''A'', ''N'', ''F'']) idleWorld))
     ''$f'' = Some \<lparr>Error = ''bad signature''\<rparr>
   \<and> ''$N'' \<notin> (EventID \<circ> fst) `
       set (roomserverInput
         (snd (processTransaction exampleEnv Background (exampleTxn [''A'', ''N'', ''F'']) idleWorld)))"
proof -
  let ?t = "exampleTxn [''A'', ''N'', ''F'']"
  have "case fst (processTransaction exampleEnv Background ?t idleWorld) of
          Some (Inr m) \<Rightarrow> True | _ \<Rightarrow> False"
    by (simp add: processTransaction_def processPDU_def processEDUs_def wgWait_def
        runGoroutines_def run.simps runTask_def processEvent_def setErr_def wgAdd_def wgDone_def
        pop_def push_def newSendFIFOQueue_def Headered_def
        exampleEnv_def exampleEvent_def exampleTxn_def idleWorld_def Let_def)
  then obtain results w' where
    pt: "processTransaction exampleEnv Background ?t idleWorld = (Some (Inr results), w')"
    by (cases "processTransaction exampleEnv Background ?t idleWorld")
      (auto split: option.splits sum.splits)
  have pN: "parsedEvent exampleEnv Background ''N'' = Some (exampleEvent ''N'', ''6'')"
    and pF: "parsedEvent exampleEnv Background ''F'' = Some (exampleEvent ''F'', ''6'')"
    by (simp_all add: parsedEvent_def exampleEnv_def)
  have mN: "''N'' \<in> set (PDUs ?t)" and mF: "''F'' \<in> set (PDUs ?t)"
    by (simp_all add: exampleTxn_def)
  have uN: "\<forall>pdu' \<in> set (PDUs ?t). \<forall>e' v'. parsedEvent exampleEnv Background pdu' = Some (e', v') \<longrightarrow>
              EventID e' = EventID (exampleEvent ''N'') \<longrightarrow> pdu' = ''N''"
    and uF: "\<forall>pdu' \<in> set (PDUs ?t). \<forall>e' v'. parsedEvent exampleEnv Background pdu' = Some (e', v') \<longrightarrow>
              EventID e' = EventID (exampleEvent ''F'') \<longrightarrow> pdu' = ''F''"
    by (auto simp: parsedEvent_def exampleEnv_def exampleEvent_def exampleTxn_def)
  have bN: "IsServerBannedFromRoom exampleEnv Background (RoomID (exampleEvent ''N'')) (Origin ?t)"
    and bF: "\<not> IsServerBannedFromRoom exampleEnv Background (RoomID (exampleEvent ''F'')) (Origin ?t)"
    and sF: "VerifyEventSignatures exampleEnv Background (exampleEvent ''F'') = Some ''bad signature''"
    by (simp_all add: exampleEnv_def exampleEvent_def)
  note N = rejected_pdu_result [OF pt mN pN uN]
  note F = rejected_pdu_result [OF pt mF pF uF]
  have 1: "results ''$N'' = Some \<lparr>Error = ''Forbidden by server ACLs''\<rparr>"
    using N bN by (simp add: exampleEvent_def)
  have 2: "results ''$f'' = Some \<lparr>Error = ''bad signature''\<rparr>"
    using F bF sF by (simp add: exampleEvent_def)
  from N bN obtain xs where xs: "roomserverInput w' = roomserverInput idleWorld @ xs"
    "\<forall>x \<in> set xs. EventID (fst x) = EventID (exampleEvent ''N'') \<longrightarrow>
       (\<exists>a task0. taskHeap idleWorld a = Some task0 \<and> x = (task_event task0, Origin (task_t task0)))"
    by blast
  have 3: "''$N'' \<notin> (EventID \<circ> fst) ` set (roomserverInput w')"
    using xs by (auto simp: idleWorld_def exampleEvent_def)
  from 1 2 3 show ?thesis
    by (simp add: pt pduResult_def)
qed

section \<open>The context a task carries\<close>

lemma noErr_ctx: "noErr task1 = noErr task \<Longrightarrow> task_ctx task1 = task_ctx task"
  by (metis inputTask.select_convs(1) inputTask.surjective inputTask.update_convs(5) noErr_def)

lemma newTask_ctx: "newTask env ctx t wg S task \<Longrightarrow> task_ctx task = ctx"
  by (auto simp: newTask_def taskOf_def)

text \<open>
  A task on the heap after \<open>processTransaction\<close> carries the context that was given to
  \<open>processTransaction\<close>, or was on the heap before.
\<close>

lemma processTransaction_task_ctx:
  assumes "taskHeap (snd (processTransaction env ctx t w)) a = Some task"
  shows "task_ctx task = ctx \<or> (\<exists>task0. taskHeap w a = Some task0 \<and> noErr task0 = noErr task)"
proof (cases rule: processTransaction_cases [of env ctx t w])
  case (abort l1 w1)
  have "grows (newTask env ctx t (nextAddr w) (set (PDUs t))) w w1"
    using grows_trans [OF grows_started
        grows_processPDUs [of env ctx t "nextAddr w" "PDUs t" "started w" noResults]] abort(1)
    by simp
  then have "taskHeap w1 a = taskHeap w a
             \<or> (\<exists>task. taskHeap w1 a = Some task \<and> newTask env ctx t (nextAddr w) (set (PDUs t)) task)"
    unfolding grows_def by blast
  moreover have "taskHeap w1 a = Some task"
    using assms abort(2) by simp
  ultimately have "taskHeap w a = Some task \<or> newTask env ctx t (nextAddr w) (set (PDUs t)) task"
    by auto
  with newTask_ctx show ?thesis by blast
next
  case (waited l1 w1 b w2)
  have g: "grows (newTask env ctx t (nextAddr w) (set (PDUs t))) w w1"
    using grows_trans [OF grows_started
        grows_processPDUs [of env ctx t "nextAddr w" "PDUs t" "started w" noResults]] waited(1)
    by simp
  have "worked (processEDUs t w1) w2"
    using worked_wgWait [of "processEDUs t w1" env "nextAddr w"] waited(2) by simp
  then have "map_option noErr (taskHeap w2 a) = map_option noErr (taskHeap w1 a)"
    by (simp add: worked_def sameTasks_def processEDUs_def)
  moreover have "taskHeap w2 a = Some task"
    using assms waited(3) by simp
  ultimately obtain task1 where t1: "taskHeap w1 a = Some task1" "noErr task1 = noErr task"
    using sameTask_at by blast
  from g have "taskHeap w1 a = taskHeap w a
             \<or> (\<exists>task. taskHeap w1 a = Some task \<and> newTask env ctx t (nextAddr w) (set (PDUs t)) task)"
    unfolding grows_def by blast
  with t1(1) have "taskHeap w a = Some task1 \<or> newTask env ctx t (nextAddr w) (set (PDUs t)) task1"
    by auto
  with t1(2) newTask_ctx noErr_ctx [OF t1(2)] show ?thesis by metis
qed

lemma leaderBody_task_ctx:
  assumes "taskHeap (snd (leaderBody env th w)) a = Some task"
  shows "task_ctx task = Background \<or> (\<exists>task0. taskHeap w a = Some task0 \<and> noErr task0 = noErr task)"
proof (cases "unmarshalTxn env (reqContent th)")
  case (Inl err)
  with assms show ?thesis by (simp add: leaderBody_def)
next
  case (Inr pe)
  obtain pdus edus where pe: "pe = (pdus, edus)" by (cases pe) auto
  let ?t = "\<lparr>PDUs = pdus, EDUs = edus, Origin = reqOrigin th, TransactionID = txnID th,
             Destination = cfgServerName th, work = []\<rparr>"
  show ?thesis
  proof (cases "50 < length pdus \<or> 100 < length edus")
    case True
    with assms Inr pe show ?thesis by (simp add: leaderBody_def)
  next
    case False
    with Inr pe have "snd (leaderBody env th w) = snd (processTransaction env Background ?t w)"
      by (auto simp: leaderBody_def Let_def split: prod.splits option.splits sum.splits)
    with assms processTransaction_task_ctx [of env Background ?t w a task] show ?thesis
      by simp
  qed
qed

text \<open>What a run of the loop body puts on record of its calls.\<close>

lemma runTask_expired_calls:
  assumes "ctxDone (cancelled w) (now w) (task_ctx task)"
  shows "processEventCalls (runTask env a task w) = processEventCalls w"
    and "sendEventsCtx (runTask env a task w) = sendEventsCtx w"
  using assms by (simp_all add: runTask_def wgDone_def setErr_def)

lemma runTask_processed_calls:
  assumes "\<not> ctxDone (cancelled w) (now w) (task_ctx task)"
  shows "processEventCalls (runTask env a task w) =
           processEventCalls w @ [(WithTimeout Background (5 * Minute) (now w), task_event task)]"
    and "sendEventsCtx (runTask env a task w) = sendEventsCtx w @ [Background]"
  using assms
  by (auto simp: runTask_def wgDone_def setErr_def processEvent_def Let_def
      split: option.splits task_error.splits)

text \<open>
  C8 as stated fails, in two places. The client of request 7 has gone away before
  \<open>Send\<close> is even called. The task that \<open>Send\<close> makes for PDU \<open>A\<close> (at address 2)
  carries \<^verbatim>\<open>context.Background()\<close>, not the context of request 7; the worker does not
  fail it, the \<open>expired\<close> counter stays at zero and the event is handed to the
  roomserver (first five conjuncts). And the event is not processed under the fresh
  five-minute timeout: \<open>processEvent\<close> is called once, with that timeout context, but
  the one call of \<^verbatim>\<open>api.SendEvents\<close> is made under \<^verbatim>\<open>context.Background()\<close>; five
  minutes later the context \<open>processEvent\<close> was given is done, the context the
  roomserver works under is not (last four).
\<close>

theorem task_context_counterexample:
  "ctxDone (cancelled (idleWorld\<lparr>cancelled := {7}\<rparr>)) (now (idleWorld\<lparr>cancelled := {7}\<rparr>))
     (RequestContext (httpReq (exampleSend 7 ''A'')))
   \<and> map_option task_ctx
       (taskHeap (snd (Send exampleEnv (exampleSend 7 ''A'') (idleWorld\<lparr>cancelled := {7}\<rparr>))) 2)
     = Some Background
   \<and> map_option task_err
       (taskHeap (snd (Send exampleEnv (exampleSend 7 ''A'') (idleWorld\<lparr>cancelled := {7}\<rparr>))) 2)
     = Some None
   \<and> pduCountTotal (snd (Send exampleEnv (exampleSend 7 ''A'') (idleWorld\<lparr>cancelled := {7}\<rparr>)))
       ''expired'' = 0
   \<and> roomserverInput (snd (Send exampleEnv (exampleSend 7 ''A'') (idleWorld\<lparr>cancelled := {7}\<rparr>)))
     = [(Headered ''6'' (exampleEvent ''A''), ''a.example'')]
   \<and> processEventCalls
       (snd (Send exampleEnv (exampleSend 7 ''A'') (idleWorld\<lparr>cancelled := {7}\<rparr>)))
     = [(WithTimeout Background (5 * Minute) 0, Headered ''6'' (exampleEvent ''A''))]
   \<and> sendEventsCtx (snd (Send exampleEnv (exampleSend 7 ''A'') (idleWorld\<lparr>cancelled := {7}\<rparr>)))
     = [Background]
   \<and> map (\<lambda>call. ctxDone {7} (5 * Minute) (fst call))
       (processEventCalls
          (snd (Send exampleEnv (exampleSend 7 ''A'') (idleWorld\<lparr>cancelled := {7}\<rparr>))))
     = [True]
   \<and> map (ctxDone {7} (5 * Minute))
       (sendEventsCtx (snd (Send exampleEnv (exampleSend 7 ''A'') (idleWorld\<lparr>cancelled := {7}\<rparr>))))
     = [False]"
  by (simp add: Send_def eval_nat_numeral SendStep_def leaderBody_def runDeferred_def makeChan_def
      deferCall_def txnIndex_def status_defs WithTimeout_def
      processTransaction_def processPDU_def processEDUs_def wgWait_def
      runGoroutines_def run.simps runTask_def processEvent_def setErr_def wgAdd_def wgDone_def
      pop_def push_def newSendFIFOQueue_def Headered_def Inc_def
      exampleEnv_def exampleEvent_def exampleSend_def idleWorld_def Let_def)

text \<open>
  C8, amended. Every task that \<open>Send\<close> enqueues carries the context handed to
  \<open>processTransaction\<close>, which \<open>Send\<close> makes \<^verbatim>\<open>context.Background()\<close>: a context
  that is never done, and not the caller's request context (first and second
  conjunct). The worker runs the loop body on each task it pops (third). The body
  checks the task's context before invoking \<open>processEvent\<close>: if it is done, the task
  ends with \<open>DeadlineExceeded\<close>, the \<open>expired\<close> counter is raised, \<open>processEvent\<close>
  is not called and the roomserver is given nothing (fourth). Otherwise the body calls
  \<open>processEvent\<close> once, with a fresh context: \<^verbatim>\<open>context.Background()\<close> with a
  timeout of five minutes from now; \<open>processEvent\<close> calls \<^verbatim>\<open>api.SendEvents\<close> once,
  under \<^verbatim>\<open>context.Background()\<close>, handing the event to the roomserver (fifth). The
  fresh context is detached from every request: it is done exactly when its five
  minutes are over, whichever requests are cancelled (sixth).
\<close>

theorem worker_checks_task_context:
  "(\<forall>b task'. taskHeap (snd (leaderBody env th w)) b = Some task' \<longrightarrow>
      task_ctx task' = Background \<or> (\<exists>task0. taskHeap w b = Some task0 \<and> noErr task0 = noErr task'))
   \<and> \<not> ctxDone cs n Background
   \<and> (inputWorkers w room = Some t \<and> q_tasks (input t) = a # rest \<and> taskHeap w a = Some task \<longrightarrow>
        run env room w = run env room (runTask env a task (dequeued room t rest w)))
   \<and> (ctxDone (cancelled w) (now w) (task_ctx task) \<longrightarrow>
        taskHeap (runTask env a task w) = (taskHeap w)(a \<mapsto> task\<lparr>task_err := Some DeadlineExceeded\<rparr>)
        \<and> pduCountTotal (runTask env a task w) = Inc ''expired'' (pduCountTotal w)
        \<and> processEventCalls (runTask env a task w) = processEventCalls w
        \<and> sendEventsCtx (runTask env a task w) = sendEventsCtx w
        \<and> roomserverInput (runTask env a task w) = roomserverInput w)
   \<and> (\<not> ctxDone (cancelled w) (now w) (task_ctx task) \<longrightarrow>
        processEventCalls (runTask env a task w) =
          processEventCalls w @ [(WithTimeout Background (5 * Minute) (now w), task_event task)]
        \<and> sendEventsCtx (runTask env a task w) = sendEventsCtx w @ [Background]
        \<and> roomserverInput (runTask env a task w) =
             roomserverInput w @ [(task_event task, Origin (task_t task))]
        \<and> pduCountTotal (runTask env a task w) ''expired'' = pduCountTotal w ''expired'')
   \<and> ctxDone cs n (WithTimeout Background (5 * Minute) (now w)) = (now w + 5 * Minute \<le> n)"
proof (intro conjI allI impI)
  fix b task'
  assume "taskHeap (snd (leaderBody env th w)) b = Some task'"
  then show "task_ctx task' = Background
             \<or> (\<exists>task0. taskHeap w b = Some task0 \<and> noErr task0 = noErr task')"
    by (rule leaderBody_task_ctx)
next
  show "\<not> ctxDone cs n Background" by simp
next
  assume "inputWorkers w room = Some t \<and> q_tasks (input t) = a # rest \<and> taskHeap w a = Some task"
  then show "run env room w = run env room (runTask env a task (dequeued room t rest w))"
    by (simp add: run_task)
next
  assume d: "ctxDone (cancelled w) (now w) (task_ctx task)"
  show "taskHeap (runTask env a task w) = (taskHeap w)(a \<mapsto> task\<lparr>task_err := Some DeadlineExceeded\<rparr>)"
    using d by (rule runTask_expired)
  show "pduCountTotal (runTask env a task w) = Inc ''expired'' (pduCountTotal w)"
    using d by (rule runTask_expired)
  show "processEventCalls (runTask env a task w) = processEventCalls w"
    using d by (rule runTask_expired_calls)
  show "sendEventsCtx (runTask env a task w) = sendEventsCtx w"
    using d by (rule runTask_expired_calls)
  show "roomserverInput (runTask env a task w) = roomserverInput w"
    using d by (rule runTask_expired)
next
  assume d: "\<not> ctxDone (cancelled w) (now w) (task_ctx task)"
  show "processEventCalls (runTask env a task w) =
          processEventCalls w @ [(WithTimeout Background (5 * Minute) (now w), task_event task)]"
    using d by (rule runTask_processed_calls)
  show "sendEventsCtx (runTask env a task w) = sendEventsCtx w @ [Background]"
    using d by (rule runTask_processed_calls)
  show "roomserverInput (runTask env a task w) =
          roomserverInput w @ [(task_event task, Origin (task_t task))]"
    using d by (rule runTask_processed)
  show "pduCountTotal (runTask env a task w) ''expired'' = pduCountTotal w ''expired''"
    using d by (rule runTask_processed)
next
  show "ctxDone cs n (WithTimeout Background (5 * Minute) (now w)) = (now w + 5 * Minute \<le> n)"
    by (simp add: WithTimeout_def)
qed

theorem worker_checks_task_context_witness:
  "map_option task_ctx
     (taskHeap (snd (leaderBody exampleEnv (exampleSend 7 ''A'') (idleWorld\<lparr>cancelled := {7}\<rparr>))) 1)
     = Some Background
   \<and> pduCountTotal
       (runTask exampleEnv 0
          (taskOf (RequestContext 7) (exampleTxn [''A'']) 1 (Headered ''6'' (exampleEvent ''A'')))
          (idleWorld\<lparr>cancelled := {7}\<rparr>)) ''expired'' = 1
   \<and> roomserverInput
       (runTask exampleEnv 0
          (taskOf (RequestContext 7) (exampleTxn [''A'']) 1 (Headered ''6'' (exampleEvent ''A'')))
          (idleWorld\<lparr>cancelled := {7}\<rparr>)) = []
   \<and> roomserverInput
       (runTask exampleEnv 0
          (taskOf Background (exampleTxn [''A'']) 1 (Headered ''6'' (exampleEvent ''A'')))
          (idleWorld\<lparr>cancelled := {7}\<rparr>))
     = [(Headered ''6'' (exampleEvent ''A''), ''a.example'')]
   \<and> processEventCalls
       (runTask exampleEnv 0
          (taskOf (RequestContext 7) (exampleTxn [''A'']) 1 (Headered ''6'' (exampleEvent ''A'')))
          (idleWorld\<lparr>cancelled := {7}\<rparr>)) = []
   \<and> processEventCalls
       (runTask exampleEnv 0
          (taskOf Background (exampleTxn [''A'']) 1 (Headered ''6'' (exampleEvent ''A'')))
          (idleWorld\<lparr>cancelled := {7}\<rparr>))
     = [(WithTimeout Background (5 * Minute) 0, Headered ''6'' (exampleEvent ''A''))]
   \<and> sendEventsCtx
       (runTask exampleEnv 0
          (taskOf Background (exampleTxn [''A'']) 1 (Headered ''6'' (exampleEvent ''A'')))
          (idleWorld\<lparr>cancelled := {7}\<rparr>))
     = [Background]
   \<and> roomserverInput
       (run exampleEnv ''!r''
          (enqueue (RequestContext 7) (exampleTxn [''A'']) 1 (Headered ''6'' (exampleEvent ''A''))
             (idleWorld\<lparr>cancelled := {7}\<rparr>)))
     = []"
proof -
  let ?w = "idleWorld\<lparr>cancelled := {7}\<rparr>"
  let ?he = "Headered ''6'' (exampleEvent ''A'')"
  let ?t7 = "taskOf (RequestContext 7) (exampleTxn [''A'']) 1 ?he"
  let ?tb = "taskOf Background (exampleTxn [''A'']) 1 ?he"
  let ?wq = "enqueue (RequestContext 7) (exampleTxn [''A'']) 1 ?he ?w"
  let ?worker = "\<lparr>running = True, input = \<lparr>q_tasks = [0], q_notifs = True\<rparr>\<rparr>"
  note T = worker_checks_task_context
  have "taskHeap (snd (leaderBody exampleEnv (exampleSend 7 ''A'') ?w)) 1 \<noteq> None"
    by (simp add: leaderBody_def processTransaction_def processPDU_def processEDUs_def wgWait_def
        runGoroutines_def run.simps runTask_def processEvent_def setErr_def wgAdd_def wgDone_def
        pop_def push_def newSendFIFOQueue_def Headered_def
        exampleEnv_def exampleEvent_def exampleSend_def idleWorld_def Let_def)
  then obtain task' where
    h: "taskHeap (snd (leaderBody exampleEnv (exampleSend 7 ''A'') ?w)) 1 = Some task'"
    by blast
  have "taskHeap ?w 1 = None" by (simp add: idleWorld_def)
  with T [of exampleEnv "exampleSend 7 ''A''" ?w, THEN conjunct1, rule_format, OF h]
  have 1: "task_ctx task' = Background" by simp
  have d7: "ctxDone (cancelled ?w) (now ?w) (task_ctx ?t7)"
    and db: "\<not> ctxDone (cancelled ?w) (now ?w) (task_ctx ?tb)"
    by (simp_all add: taskOf_def)
  note E = T [of exampleEnv "exampleSend 7 ''A''" ?w _ _ _ _ 0 _ ?t7,
      THEN conjunct2, THEN conjunct2, THEN conjunct2, THEN conjunct1, rule_format, OF d7]
  note P = T [of exampleEnv "exampleSend 7 ''A''" ?w _ _ _ _ 0 _ ?tb,
      THEN conjunct2, THEN conjunct2, THEN conjunct2, THEN conjunct2, THEN conjunct1,
      rule_format, OF db]
  have 2: "pduCountTotal (runTask exampleEnv 0 ?t7 ?w) ''expired'' = 1"
    using E by (simp add: Inc_def idleWorld_def)
  have 3: "roomserverInput (runTask exampleEnv 0 ?t7 ?w) = []"
    using E by (simp add: idleWorld_def)
  have 4: "roomserverInput (runTask exampleEnv 0 ?tb ?w) = [(?he, ''a.example'')]"
    using P [THEN conjunct2, THEN conjunct2, THEN conjunct1]
    by (simp add: idleWorld_def taskOf_def exampleTxn_def)
  have 6: "processEventCalls (runTask exampleEnv 0 ?t7 ?w) = []"
    using E by (simp add: idleWorld_def)
  have 7: "processEventCalls (runTask exampleEnv 0 ?tb ?w)
           = [(WithTimeout Background (5 * Minute) 0, ?he)]"
    using P [THEN conjunct1] by (simp add: idleWorld_def taskOf_def)
  have 8: "sendEventsCtx (runTask exampleEnv 0 ?tb ?w) = [Background]"
    using P [THEN conjunct2, THEN conjunct1] by (simp add: idleWorld_def)
  have q: "inputWorkers ?wq ''!r'' = Some ?worker \<and> q_tasks (input ?worker) = 0 # []
           \<and> taskHeap ?wq 0 = Some ?t7"
    by (simp add: enqueue_def idleWorld_def Headered_def exampleEvent_def push_def
        newSendFIFOQueue_def Let_def)
  have "run exampleEnv ''!r'' ?wq =
          run exampleEnv ''!r'' (runTask exampleEnv 0 ?t7 (dequeued ''!r'' ?worker [] ?wq))"
    using T [of exampleEnv "exampleSend 7 ''A''" ?wq _ _ "''!r''" ?worker 0 "[]" ?t7,
        THEN conjunct2, THEN conjunct2, THEN conjunct1] q
    by blast
  then have 5: "roomserverInput (run exampleEnv ''!r'' ?wq) = []"
    by (simp add: run.simps runTask_def dequeued_def enqueue_def taskOf_def setErr_def wgDone_def
        pop_def push_def newSendFIFOQueue_def Headered_def exampleEvent_def idleWorld_def Let_def)
  from 1 2 3 4 5 6 7 8 h show ?thesis by simp
qed

section \<open>Two invocations with the same origin and transaction ID\<close>

text \<open>
  The leader's side of the protocol, as a relation between where the leader stands and
  the shared state. \<open>leading\<close>: its entry is in the registry and names its channel,
  which is open and holds nothing, or, once the leader is returning, at most the
  response it sent. \<open>finishing\<close>: the entry is deleted; the channel is open while the
  deferred close is pending and closed afterwards.
\<close>

definition leading :: "nat \<Rightarrow> string \<Rightarrow> pc \<Rightarrow> world \<Rightarrow> bool" where
  "leading ch index p w \<longleftrightarrow>
     ch < nextAddr w \<and> inFlightTxnsPerOrigin w index = Some ch \<and>
     (\<exists>buf. chans w ch = Some \<lparr>ch_buf = buf, ch_cap = 1, ch_closed = False\<rparr> \<and>
        (case p of
           AtBody ch' ds \<Rightarrow> ch' = ch \<and> ds = [DeferDelete index, DeferClose ch] \<and> buf = []
         | AtChanSend ch' res ds \<Rightarrow> ch' = ch \<and> ds = [DeferDelete index, DeferClose ch] \<and> buf = []
         | AtReturn ds res \<Rightarrow> ds = [DeferDelete index, DeferClose ch] \<and> (buf = [] \<or> buf = [res])
         | Blocked \<Rightarrow> buf = []
         | _ \<Rightarrow> False))"

definition finishing :: "nat \<Rightarrow> string \<Rightarrow> pc \<Rightarrow> world \<Rightarrow> bool" where
  "finishing ch index p w \<longleftrightarrow>
     ch < nextAddr w \<and> inFlightTxnsPerOrigin w index = None \<and>
     (\<exists>buf closed. chans w ch = Some \<lparr>ch_buf = buf, ch_cap = 1, ch_closed = closed\<rparr> \<and>
        (case p of
           AtReturn ds res \<Rightarrow>
             (buf = [] \<or> buf = [res]) \<and> (ds = [DeferClose ch] \<and> \<not> closed \<or> ds = [] \<and> closed)
         | Returned res \<Rightarrow> (buf = [] \<or> buf = [res]) \<and> closed
         | _ \<Rightarrow> False))"

definition lead :: "nat \<Rightarrow> string \<Rightarrow> pc \<Rightarrow> world \<Rightarrow> bool" where
  "lead ch index p w \<longleftrightarrow> leading ch index p w \<or> finishing ch index p w"

text \<open>The response an invocation is returning or has returned.\<close>

definition respOf :: "pc \<Rightarrow> response option" where
  "respOf p = (case p of AtReturn ds res \<Rightarrow> Some res | Returned res \<Rightarrow> Some res | _ \<Rightarrow> None)"

text \<open>
  The follower's side: it waits on the leader's channel, or it has returned 408, 202 or
  the response the leader returns.
\<close>

definition following :: "nat \<Rightarrow> pc \<Rightarrow> pc \<Rightarrow> bool" where
  "following ch pA pB \<longleftrightarrow>
     (\<exists>ctx. pB = AtSelect ch ctx) \<or>
     (\<exists>r. pB = Returned r \<and>
        (r = \<lparr>Code = 408, JSON = JSONNil\<rparr> \<or> r = \<lparr>Code = 202, JSON = JSONNil\<rparr> \<or> respOf pA = Some r))"

lemma lead_frame:
  assumes "lead ch index p w" and "frame w w'"
  shows "lead ch index p w'"
  using assms unfolding lead_def leading_def finishing_def frame_def
  by (auto simp: less_le_trans)

lemma lead_not_follower: "lead ch index p w \<Longrightarrow> p \<noteq> AtLoadOrStore \<and> (\<forall>c ctx. p \<noteq> AtSelect c ctx)"
  by (auto simp: lead_def leading_def finishing_def)

text \<open>The first step of an invocation that finds no entry makes it the leader.\<close>

lemma becomes_leader:
  assumes "at th = AtLoadOrStore" and "inFlightTxnsPerOrigin w (txnIndex (reqOrigin th) (txnID th)) = None"
    and "SendStep env p th w = Some (th', w')"
  shows "lead (nextAddr w) (txnIndex (reqOrigin th) (txnID th)) (at th') w'"
    and "reqOrigin th' = reqOrigin th" and "txnID th' = txnID th"
  using assms
  by (auto simp: SendStep_def Let_def deferCall_def makeChan_def lead_def leading_def)

text \<open>Every step of the leader keeps it the leader, and keeps the response it returns.\<close>

lemma leader_step:
  assumes "lead ch index (at th) w" and "txnIndex (reqOrigin th) (txnID th) = index"
    and "SendStep env p th w = Some (th', w')"
  shows "lead ch index (at th') w'"
    and "reqOrigin th' = reqOrigin th" and "txnID th' = txnID th"
    and "respOf (at th) = Some r \<longrightarrow> respOf (at th') = Some r"
proof -
  have "lead ch index (at th') w' \<and> reqOrigin th' = reqOrigin th \<and> txnID th' = txnID th
        \<and> (respOf (at th) = Some r \<longrightarrow> respOf (at th') = Some r)"
  proof (cases "at th")
    case AtLoadOrStore
    with assms(1) show ?thesis by (simp add: lead_def leading_def finishing_def)
  next
    case (AtSelect c ctx)
    with assms(1) show ?thesis by (simp add: lead_def leading_def finishing_def)
  next
    case (AtBody c ds)
    obtain r1 w1 where lb: "leaderBody env th w = (r1, w1)"
      by (cases "leaderBody env th w") auto
    have fr: "frame w w1"
      using frame_leaderBody [of w env th] lb by simp
    from assms(1) AtBody have ld: "leading ch index (AtBody c ds) w"
      by (simp add: lead_def finishing_def)
    then have ld1: "leading ch index (AtBody c ds) w1"
      using fr unfolding leading_def frame_def by (auto simp: less_le_trans)
    from ld1 have "leading ch index Blocked w1" "\<And>res. leading ch index (AtReturn ds res) w1"
      "\<And>res. leading ch index (AtChanSend c res ds) w1"
      by (auto simp: leading_def)
    with assms(3) AtBody lb show ?thesis
      by (auto simp: SendStep_def lead_def respOf_def split: option.splits sum.splits)
  next
    case (AtChanSend c res ds)
    with assms(1,3) show ?thesis
      by (auto simp: SendStep_def lead_def leading_def finishing_def respOf_def
          split: option.splits if_splits)
  next
    case (AtReturn ds res)
    with assms show ?thesis
      by (auto simp: SendStep_def lead_def leading_def finishing_def respOf_def runDeferred_def
          split: option.splits if_splits list.splits deferred.splits)
  next
    case (Returned res)
    with assms(3) show ?thesis by (simp add: SendStep_def)
  next
    case Blocked
    with assms(3) show ?thesis by (simp add: SendStep_def)
  next
    case Panicked
    with assms(3) show ?thesis by (simp add: SendStep_def)
  qed
  then show "lead ch index (at th') w'"
    and "reqOrigin th' = reqOrigin th" and "txnID th' = txnID th"
    and "respOf (at th) = Some r \<longrightarrow> respOf (at th') = Some r"
    by simp_all
qed

text \<open>An invocation that finds the leader's entry becomes its follower.\<close>

lemma becomes_follower:
  assumes "leading ch index pA w" and "at th = AtLoadOrStore"
    and "txnIndex (reqOrigin th) (txnID th) = index"
  shows "\<exists>th' w'. SendStep env p th w = Some (th', w') \<and> following ch pA (at th')
           \<and> leading ch index pA w'"
  using assms
  by (auto simp: SendStep_def Let_def leading_def following_def)

text \<open>
  A step of the follower returns 408, 202 or the response the leader returns, and
  leaves the leader's side as it is.
\<close>

lemma follower_step:
  assumes "lead ch index pA w" and "following ch pA (at th)"
    and "SendStep env p th w = Some (th', w')"
  shows "following ch pA (at th') \<and> lead ch index pA w'"
proof -
  from assms(2,3) obtain ctx where sel: "at th = AtSelect ch ctx"
    by (auto simp: following_def SendStep_def)
  from assms(3) sel obtain res where
    fs: "followerSelect p ch ctx w = Some (res, w')" and th': "at th' = Returned res"
    by (auto simp: SendStep_def split: option.splits)
  from assms(1) obtain buf closed where
    ch: "chans w ch = Some \<lparr>ch_buf = buf, ch_cap = 1, ch_closed = closed\<rparr>"
    and buf: "buf = [] \<or> (\<exists>r. buf = [r] \<and> respOf pA = Some r)"
    by (cases pA) (auto simp: lead_def leading_def finishing_def respOf_def)
  show ?thesis
  proof (cases "res = \<lparr>Code = 408, JSON = JSONNil\<rparr> \<and> w' = w")
    case True
    with th' assms(1) show ?thesis by (simp add: following_def)
  next
    case False
    with fs have rc: "chanReady w ch"
      and rv: "chanRecv w ch = (v, w') \<Longrightarrow>
               res = (if Code v = 0 then \<lparr>Code = 202, JSON = JSONNil\<rparr> else v)" for v
      by (auto simp: followerSelect_def Let_def status_defs split: if_splits prod.splits)
    from buf show ?thesis
    proof
      assume e: "buf = []"
      with ch have "chanRecv w ch = (\<lparr>Code = 0, JSON = JSONNil\<rparr>, w)"
        by (simp add: chanRecv_def)
      moreover from fs False have "w' = snd (chanRecv w ch)"
        by (auto simp: followerSelect_def Let_def status_defs split: if_splits prod.splits)
      ultimately have "w' = w" "res = \<lparr>Code = 202, JSON = JSONNil\<rparr>"
        using rv by simp_all
      with th' assms(1) show ?thesis by (simp add: following_def)
    next
      assume "\<exists>r. buf = [r] \<and> respOf pA = Some r"
      then obtain r where r: "buf = [r]" "respOf pA = Some r" by blast
      let ?w1 = "w\<lparr>chans := (chans w)(ch \<mapsto> \<lparr>ch_buf = [], ch_cap = 1, ch_closed = closed\<rparr>)\<rparr>"
      from ch r have cr: "chanRecv w ch = (r, ?w1)"
        by (simp add: chanRecv_def)
      moreover from fs False have "w' = snd (chanRecv w ch)"
        by (auto simp: followerSelect_def Let_def status_defs split: if_splits prod.splits)
      ultimately have w': "w' = ?w1"
        and res: "res = (if Code r = 0 then \<lparr>Code = 202, JSON = JSONNil\<rparr> else r)"
        using rv by simp_all
      have "lead ch index pA ?w1"
        using assms(1) ch by (cases pA) (auto simp: lead_def leading_def finishing_def)
      with th' w' res r show ?thesis by (auto simp: following_def)
    qed
  qed
qed

text \<open>
  The configurations of two invocations \<open>a\<close> and \<open>b\<close> of the same key. \<open>before\<close>:
  \<open>b\<close> has not looked the key up yet; \<open>a\<close> has not either and there is no entry,
  or \<open>a\<close> is the leader. \<open>attached\<close>: \<open>a\<close> is the leader and \<open>b\<close> its follower.
\<close>

definition before :: "string \<Rightarrow> invocation list \<times> world \<Rightarrow> bool" where
  "before index c \<longleftrightarrow>
     (\<exists>a b w. c = ([a, b], w) \<and> at b = AtLoadOrStore \<and>
        txnIndex (reqOrigin a) (txnID a) = index \<and> txnIndex (reqOrigin b) (txnID b) = index \<and>
        (at a = AtLoadOrStore \<and> inFlightTxnsPerOrigin w index = None \<or>
         (\<exists>ch. lead ch index (at a) w)))"

definition attached :: "string \<Rightarrow> nat \<Rightarrow> invocation list \<times> world \<Rightarrow> bool" where
  "attached index ch c \<longleftrightarrow>
     (\<exists>a b w. c = ([a, b], w) \<and> txnIndex (reqOrigin a) (txnID a) = index \<and>
        lead ch index (at a) w \<and> following ch (at a) (at b))"

definition movesB :: "action \<Rightarrow> bool" where
  "movesB act = (case act of Step i p \<Rightarrow> i = 1 | _ \<Rightarrow> False)"

lemma frame_Work: "frame w (snd (exec1 env Work (ths, w)))"
proof (cases "goroutines w")
  case Nil
  then show ?thesis by simp
next
  case (Cons room rest)
  have "frame w (w\<lparr>goroutines := rest\<rparr>)" by (simp add: frame_def)
  from frame_trans [OF this frame_run] Cons show ?thesis by simp
qed

lemma exec1_other:
  assumes "act = Cancel r \<or> act = Tick d \<or> act = Work"
  shows "fst (exec1 env act (ths, w)) = ths"
    and "chans (snd (exec1 env act (ths, w))) = chans w"
    and "inFlightTxnsPerOrigin (snd (exec1 env act (ths, w))) = inFlightTxnsPerOrigin w"
    and "nextAddr w \<le> nextAddr (snd (exec1 env act (ths, w)))"
proof -
  have "fst (exec1 env act (ths, w)) = ths \<and> chans (snd (exec1 env act (ths, w))) = chans w
        \<and> inFlightTxnsPerOrigin (snd (exec1 env act (ths, w))) = inFlightTxnsPerOrigin w
        \<and> nextAddr w \<le> nextAddr (snd (exec1 env act (ths, w)))"
    using assms
  proof (elim disjE)
    assume "act = Work"
    then show ?thesis
      using frame_Work [where w = w and env = env and ths = ths]
      by (auto simp: frame_def split: list.splits)
  qed auto
  then show "fst (exec1 env act (ths, w)) = ths"
    and "chans (snd (exec1 env act (ths, w))) = chans w"
    and "inFlightTxnsPerOrigin (snd (exec1 env act (ths, w))) = inFlightTxnsPerOrigin w"
    and "nextAddr w \<le> nextAddr (snd (exec1 env act (ths, w)))"
    by simp_all
qed

lemma lead_other:
  assumes "lead ch index p w" and "act = Cancel r \<or> act = Tick d \<or> act = Work"
  shows "lead ch index p (snd (exec1 env act (ths, w)))"
  using assms(1) exec1_other [OF assms(2), where env = env and ths = ths and w = w]
  unfolding lead_def leading_def finishing_def
  by (auto simp: less_le_trans)

lemma action_cases:
  obtains (stepA) p where "act = Step 0 p"
  | (stepB) p where "act = Step 1 p"
  | (stepC) i p where "act = Step i p" "2 \<le> i"
  | (other) r d where "act = Cancel r \<or> act = Tick d \<or> act = Work"
proof (cases act)
  case (Step i p)
  then show ?thesis
    using stepA stepB stepC by (cases "i = 0"; cases "i = 1") auto
qed (use other in auto)

lemma before_exec1:
  assumes "before index c" and "\<not> movesB act"
  shows "before index (exec1 env act c)"
proof -
  from assms(1) obtain a b w where c: "c = ([a, b], w)" and b: "at b = AtLoadOrStore"
    and ka: "txnIndex (reqOrigin a) (txnID a) = index"
    and kb: "txnIndex (reqOrigin b) (txnID b) = index"
    and st: "at a = AtLoadOrStore \<and> inFlightTxnsPerOrigin w index = None \<or>
             (\<exists>ch. lead ch index (at a) w)"
    by (auto simp: before_def)
  show ?thesis
  proof (cases act rule: action_cases)
    case (stepA p)
    show ?thesis
    proof (cases "SendStep env p a w")
      case None
      with c stepA assms(1) show ?thesis by simp
    next
      case (Some aw)
      obtain a' w' where aw: "aw = (a', w')" by (cases aw) auto
      have ex: "exec1 env act c = ([a', b], w')"
        using c stepA Some aw by simp
      from st have "txnIndex (reqOrigin a') (txnID a') = index \<and> (\<exists>ch. lead ch index (at a') w')"
      proof
        assume "at a = AtLoadOrStore \<and> inFlightTxnsPerOrigin w index = None"
        with becomes_leader [of a w env p a' w'] Some aw ka show ?thesis by auto
      next
        assume "\<exists>ch. lead ch index (at a) w"
        then obtain ch where "lead ch index (at a) w" by blast
        from leader_step [OF this ka Some [unfolded aw]] ka show ?thesis by auto
      qed
      with ex b kb show ?thesis by (auto simp: before_def)
    qed
  next
    case (stepB p)
    with assms(2) show ?thesis by (simp add: movesB_def)
  next
    case (stepC i p)
    with c assms(1) show ?thesis by simp
  next
    case (other r d)
    have "fst (exec1 env act ([a, b], w)) = [a, b]"
      and "inFlightTxnsPerOrigin (snd (exec1 env act ([a, b], w))) = inFlightTxnsPerOrigin w"
      using exec1_other [OF other] by simp_all
    moreover have "lead ch index (at a) (snd (exec1 env act ([a, b], w)))"
      if "lead ch index (at a) w" for ch
      using that other by (rule lead_other)
    ultimately show ?thesis
      using c b ka kb st unfolding before_def
      by (metis prod.collapse)
  qed
qed

lemma before_exec:
  "before index c \<Longrightarrow> \<forall>act \<in> set sched. \<not> movesB act \<Longrightarrow> before index (exec env sched c)"
proof (induction sched arbitrary: c)
  case Nil
  then show ?case by (simp add: exec_def)
next
  case (Cons act sched)
  from Cons.prems have "before index (exec1 env act c)"
    by (simp add: before_exec1)
  from Cons.IH [OF this] Cons.prems(2) show ?case
    by (simp add: exec_def)
qed

lemma attached_exec1:
  assumes "attached index ch c"
  shows "attached index ch (exec1 env act c)"
proof -
  from assms obtain a b w where c: "c = ([a, b], w)"
    and ka: "txnIndex (reqOrigin a) (txnID a) = index"
    and ld: "lead ch index (at a) w" and fo: "following ch (at a) (at b)"
    by (auto simp: attached_def)
  show ?thesis
  proof (cases act rule: action_cases)
    case (stepA p)
    show ?thesis
    proof (cases "SendStep env p a w")
      case None
      with c stepA assms show ?thesis by simp
    next
      case (Some aw)
      obtain a' w' where aw: "aw = (a', w')" by (cases aw) auto
      have ex: "exec1 env act c = ([a', b], w')"
        using c stepA Some aw by simp
      note ls = leader_step [OF ld ka Some [unfolded aw]]
      have "following ch (at a') (at b)"
        using fo ls(4) unfolding following_def by blast
      with ex ls(1-3) ka show ?thesis by (auto simp: attached_def)
    qed
  next
    case (stepB p)
    show ?thesis
    proof (cases "SendStep env p b w")
      case None
      with c stepB assms show ?thesis by simp
    next
      case (Some bw)
      obtain b' w' where bw: "bw = (b', w')" by (cases bw) auto
      have ex: "exec1 env act c = ([a, b'], w')"
        using c stepB Some bw by simp
      from follower_step [OF ld fo Some [unfolded bw]] ex ka show ?thesis
        by (auto simp: attached_def)
    qed
  next
    case (stepC i p)
    with c assms show ?thesis by simp
  next
    case (other r d)
    have "fst (exec1 env act ([a, b], w)) = [a, b]"
      using exec1_other [OF other] by simp
    moreover have "lead ch index (at a) (snd (exec1 env act ([a, b], w)))"
      using ld other by (rule lead_other)
    ultimately show ?thesis
      using c ka fo unfolding attached_def
      by (metis prod.collapse)
  qed
qed

lemma attached_exec: "attached index ch c \<Longrightarrow> attached index ch (exec env sched c)"
proof (induction sched arbitrary: c)
  case Nil
  then show ?case by (simp add: exec_def)
next
  case (Cons act sched)
  from Cons.IH [OF attached_exec1 [OF Cons.prems]] show ?case
    by (simp add: exec_def)
qed

lemma before_attach:
  assumes "before index (ths, w)" and "inFlightTxnsPerOrigin w index \<noteq> None"
  shows "\<exists>ch. attached index ch (exec1 env (Step 1 p) (ths, w))"
proof -
  from assms(1) obtain a b where c: "ths = [a, b]" and b: "at b = AtLoadOrStore"
    and ka: "txnIndex (reqOrigin a) (txnID a) = index"
    and kb: "txnIndex (reqOrigin b) (txnID b) = index"
    and st: "at a = AtLoadOrStore \<and> inFlightTxnsPerOrigin w index = None \<or>
             (\<exists>ch. lead ch index (at a) w)"
    by (auto simp: before_def)
  from st assms(2) obtain ch where "leading ch index (at a) w"
    by (auto simp: lead_def finishing_def)
  from becomes_follower [OF this b kb, of env p] obtain b' w' where
    "SendStep env p b w = Some (b', w')" "following ch (at a) (at b')" "leading ch index (at a) w'"
    by blast
  with c ka have "attached index ch (exec1 env (Step 1 p) (ths, w))"
    by (auto simp: attached_def lead_def)
  then show ?thesis ..
qed

text \<open>
  What is seen of an invocation from outside: the status code it has returned, if it
  has returned, and the deferred calls it has yet to run while it is returning.
\<close>

definition returnedCode :: "invocation \<Rightarrow> int option" where
  "returnedCode th = (case at th of Returned res \<Rightarrow> Some (Code res) | _ \<Rightarrow> None)"

definition pending :: "invocation \<Rightarrow> deferred list option" where
  "pending th = (case at th of AtReturn ds res \<Rightarrow> Some ds | _ \<Rightarrow> None)"

text \<open>
  C3 as stated fails. Two requests carry the same origin \<open>a.example\<close> and transaction
  ID \<open>t1\<close>. The first runs until its deferred \<^verbatim>\<open>Delete\<close> has removed the registry
  entry: it has not returned yet, its deferred \<^verbatim>\<open>close(ch)\<close> is still to run. The
  second is called now; its \<^verbatim>\<open>LoadOrStore\<close> finds no entry, so it stores a channel of
  its own and goes on to the leader's body. It processes the transaction again and
  returns 200 while the first is still in \<open>Send\<close>; then the first returns 200 too.
  Both have performed the processing: the roomserver has been given event \<open>$A\<close> twice.
\<close>

theorem second_leader_counterexample:
  "map pending (fst (exec exampleEnv [Step 0 True, Step 0 True, Step 0 True, Step 0 True]
      ([exampleSend 0 ''A'', exampleSend 1 ''A''], idleWorld)))
     = [Some [DeferClose 0], None]
   \<and> map returnedCode (fst (exec exampleEnv [Step 0 True, Step 0 True, Step 0 True, Step 0 True]
      ([exampleSend 0 ''A'', exampleSend 1 ''A''], idleWorld)))
     = [None, None]
   \<and> map at (fst (exec exampleEnv
        [Step 0 True, Step 0 True, Step 0 True, Step 0 True, Step 1 True]
        ([exampleSend 0 ''A'', exampleSend 1 ''A''], idleWorld))) ! 1
     = AtBody 3 [DeferDelete (txnIndex ''a.example'' ''t1''), DeferClose 3]
   \<and> map returnedCode (fst (exec exampleEnv
        [Step 0 True, Step 0 True, Step 0 True, Step 0 True,
         Step 1 True, Step 1 True, Step 1 True, Step 1 True, Step 1 True, Step 1 True]
        ([exampleSend 0 ''A'', exampleSend 1 ''A''], idleWorld)))
     = [None, Some 200]
   \<and> map returnedCode (fst (exec exampleEnv
        [Step 0 True, Step 0 True, Step 0 True, Step 0 True,
         Step 1 True, Step 1 True, Step 1 True, Step 1 True, Step 1 True, Step 1 True,
         Step 0 True, Step 0 True]
        ([exampleSend 0 ''A'', exampleSend 1 ''A''], idleWorld)))
     = [Some 200, Some 200]
   \<and> roomserverInput (snd (exec exampleEnv
        [Step 0 True, Step 0 True, Step 0 True, Step 0 True,
         Step 1 True, Step 1 True, Step 1 True, Step 1 True, Step 1 True, Step 1 True,
         Step 0 True, Step 0 True]
        ([exampleSend 0 ''A'', exampleSend 1 ''A''], idleWorld)))
     = [(Headered ''6'' (exampleEvent ''A''), ''a.example''),
        (Headered ''6'' (exampleEvent ''A''), ''a.example'')]"
  by (simp add: exec_def returnedCode_def pending_def
      SendStep_def leaderBody_def runDeferred_def makeChan_def
      deferCall_def txnIndex_def status_defs
      processTransaction_def processPDU_def processEDUs_def wgWait_def
      runGoroutines_def run.simps runTask_def processEvent_def setErr_def wgAdd_def wgDone_def
      pop_def push_def newSendFIFOQueue_def Headered_def Inc_def
      exampleEnv_def exampleEvent_def exampleSend_def idleWorld_def Let_def)

text \<open>
  C3, amended. Two invocations \<open>thA\<close> and \<open>thB\<close> of \<open>Send\<close> carry the same origin and
  transaction ID, and no entry for them is in the registry. Whatever happens before
  \<open>thB\<close> takes its first step (\<open>sched1\<close>: steps of \<open>thA\<close>, requests cancelled, time
  passing, workers running), if that first step, the \<^verbatim>\<open>LoadOrStore\<close>, finds the entry
  in the registry, then at every later moment (\<open>sched2\<close> is any schedule) \<open>thA\<close> is the
  leader: it is past \<^verbatim>\<open>LoadOrStore\<close> and on the leader's branch; and \<open>thB\<close> is in its
  \<^verbatim>\<open>select\<close> or has returned 408, 202 or the response that \<open>thA\<close> is returning or has
  returned. So \<open>thB\<close> never reaches the leader's body, where the transaction is
  processed.
\<close>

theorem follower_attaches_to_leader:
  assumes "reqOrigin thB = reqOrigin thA" and "txnID thB = txnID thA"
    and "at thA = AtLoadOrStore" and "at thB = AtLoadOrStore"
    and "inFlightTxnsPerOrigin w (txnIndex (reqOrigin thA) (txnID thA)) = None"
    and "\<forall>act \<in> set sched1. \<not> movesB act"
    and "inFlightTxnsPerOrigin (snd (exec env sched1 ([thA, thB], w)))
           (txnIndex (reqOrigin thA) (txnID thA)) \<noteq> None"
  shows "\<exists>a b. fst (exec env (sched1 @ Step 1 p # sched2) ([thA, thB], w)) = [a, b]
           \<and> at a \<noteq> AtLoadOrStore \<and> (\<forall>ch ctx. at a \<noteq> AtSelect ch ctx)
           \<and> ((\<exists>ch ctx. at b = AtSelect ch ctx)
              \<or> (\<exists>r. at b = Returned r
                   \<and> (r = \<lparr>Code = StatusRequestTimeout, JSON = JSONNil\<rparr>
                      \<or> r = \<lparr>Code = StatusAccepted, JSON = JSONNil\<rparr>
                      \<or> respOf (at a) = Some r)))"
proof -
  let ?index = "txnIndex (reqOrigin thA) (txnID thA)"
  obtain ths1 w1 where c1: "exec env sched1 ([thA, thB], w) = (ths1, w1)"
    by (cases "exec env sched1 ([thA, thB], w)")
  have "before ?index ([thA, thB], w)"
    using assms(1-5) by (simp add: before_def)
  then have "before ?index (exec env sched1 ([thA, thB], w))"
    using assms(6) by (rule before_exec)
  with c1 have "before ?index (ths1, w1)"
    by simp
  moreover from c1 assms(7) have "inFlightTxnsPerOrigin w1 ?index \<noteq> None"
    by simp
  ultimately have "\<exists>ch. attached ?index ch (exec1 env (Step 1 p) (ths1, w1))"
    by (rule before_attach)
  then obtain ch where "attached ?index ch (exec1 env (Step 1 p) (ths1, w1))" ..
  then have "attached ?index ch (exec env sched2 (exec1 env (Step 1 p) (ths1, w1)))"
    by (rule attached_exec)
  moreover have "exec env (sched1 @ Step 1 p # sched2) ([thA, thB], w)
                 = exec env sched2 (exec1 env (Step 1 p) (ths1, w1))"
    using c1 by (simp add: exec_def)
  ultimately obtain a b w2 where
    e: "exec env (sched1 @ Step 1 p # sched2) ([thA, thB], w) = ([a, b], w2)"
    and l: "lead ch ?index (at a) w2" and f: "following ch (at a) (at b)"
    by (auto simp: attached_def)
  from lead_not_follower [OF l] f e show ?thesis
    by (auto simp: following_def status_defs)
qed

text \<open>
  The theorem at work: the second request is called right after the first has stored
  its channel, waits in its \<^verbatim>\<open>select\<close> while the first processes the transaction, and
  receives the first's response from the channel. Both return 200, and the roomserver
  has been given event \<open>$A\<close> once.
\<close>

theorem follower_attaches_to_leader_witness:
  "\<not> movesB (Step 0 True)
   \<and> inFlightTxnsPerOrigin
       (snd (exec exampleEnv [Step 0 True] ([exampleSend 0 ''A'', exampleSend 1 ''A''], idleWorld)))
       (txnIndex ''a.example'' ''t1'') = Some 0
   \<and> (\<exists>a b. fst (exec exampleEnv
                 ([Step 0 True] @ Step 1 True #
                  [Step 0 True, Step 0 True, Step 1 True, Step 0 True, Step 0 True, Step 0 True])
                 ([exampleSend 0 ''A'', exampleSend 1 ''A''], idleWorld)) = [a, b]
        \<and> at a \<noteq> AtLoadOrStore \<and> (\<forall>ch ctx. at a \<noteq> AtSelect ch ctx)
        \<and> ((\<exists>ch ctx. at b = AtSelect ch ctx)
           \<or> (\<exists>r. at b = Returned r
                \<and> (r = \<lparr>Code = StatusRequestTimeout, JSON = JSONNil\<rparr>
                   \<or> r = \<lparr>Code = StatusAccepted, JSON = JSONNil\<rparr>
                   \<or> respOf (at a) = Some r))))
   \<and> map returnedCode (fst (exec exampleEnv
        ([Step 0 True] @ Step 1 True #
         [Step 0 True, Step 0 True, Step 1 True, Step 0 True, Step 0 True, Step 0 True])
        ([exampleSend 0 ''A'', exampleSend 1 ''A''], idleWorld)))
     = [Some 200, Some 200]
   \<and> roomserverInput (snd (exec exampleEnv
        ([Step 0 True] @ Step 1 True #
         [Step 0 True, Step 0 True, Step 1 True, Step 0 True, Step 0 True, Step 0 True])
        ([exampleSend 0 ''A'', exampleSend 1 ''A''], idleWorld)))
     = [(Headered ''6'' (exampleEvent ''A''), ''a.example'')]"
proof -
  have 1: "\<forall>act \<in> set [Step 0 True]. \<not> movesB act"
    by (simp add: movesB_def)
  have 2: "inFlightTxnsPerOrigin
             (snd (exec exampleEnv [Step 0 True]
                ([exampleSend 0 ''A'', exampleSend 1 ''A''], idleWorld)))
             (txnIndex ''a.example'' ''t1'') = Some 0"
    by (simp add: exec_def SendStep_def makeChan_def deferCall_def txnIndex_def
        exampleSend_def idleWorld_def Let_def)
  have 3: "reqOrigin (exampleSend 1 ''A'') = reqOrigin (exampleSend 0 ''A'')"
    "txnID (exampleSend 1 ''A'') = txnID (exampleSend 0 ''A'')"
    "at (exampleSend 0 ''A'') = AtLoadOrStore" "at (exampleSend 1 ''A'') = AtLoadOrStore"
    "reqOrigin (exampleSend 0 ''A'') = ''a.example''" "txnID (exampleSend 0 ''A'') = ''t1''"
    by (simp_all add: exampleSend_def)
  have 4: "inFlightTxnsPerOrigin idleWorld
             (txnIndex (reqOrigin (exampleSend 0 ''A'')) (txnID (exampleSend 0 ''A''))) = None"
    by (simp add: idleWorld_def)
  have 5: "inFlightTxnsPerOrigin
             (snd (exec exampleEnv [Step 0 True]
                ([exampleSend 0 ''A'', exampleSend 1 ''A''], idleWorld)))
             (txnIndex (reqOrigin (exampleSend 0 ''A'')) (txnID (exampleSend 0 ''A''))) \<noteq> None"
    using 2 by (simp add: 3)
  have 6: "map returnedCode (fst (exec exampleEnv
        ([Step 0 True] @ Step 1 True #
         [Step 0 True, Step 0 True, Step 1 True, Step 0 True, Step 0 True, Step 0 True])
        ([exampleSend 0 ''A'', exampleSend 1 ''A''], idleWorld)))
     = [Some 200, Some 200]
   \<and> roomserverInput (snd (exec exampleEnv
        ([Step 0 True] @ Step 1 True #
         [Step 0 True, Step 0 True, Step 1 True, Step 0 True, Step 0 True, Step 0 True])
        ([exampleSend 0 ''A'', exampleSend 1 ''A''], idleWorld)))
     = [(Headered ''6'' (exampleEvent ''A''), ''a.example'')]"
    by (simp add: exec_def returnedCode_def
        SendStep_def leaderBody_def runDeferred_def makeChan_def
        deferCall_def txnIndex_def status_defs followerSelect_def chanReady_def chanRecv_def
        WithTimeout_def Minute_def Second_def
        processTransaction_def processPDU_def processEDUs_def wgWait_def
        runGoroutines_def run.simps runTask_def processEvent_def setErr_def wgAdd_def wgDone_def
        pop_def push_def newSendFIFOQueue_def Headered_def Inc_def
        exampleEnv_def exampleEvent_def exampleSend_def idleWorld_def Let_def)
  from follower_attaches_to_leader [OF 3(1-4) 4 1 5, of True
      "[Step 0 True, Step 0 True, Step 1 True, Step 0 True, Step 0 True, Step 0 True]"]
  show ?thesis
    using 1 2 6 by simp
qed

end
